theory Spec2Isabelle
  imports Complex_Main "HOL-Library.Word"
begin

section \<open>Vibeants: the simulation engine of \<^verbatim>\<open>src/main.js\<close>\<close>

text \<open>
  The engine is the classes \<^verbatim>\<open>World\<close> and \<^verbatim>\<open>Ant\<close> with the utilities above them.
  A JavaScript number is modelled as follows:
  \<^item> a number that only ever holds an integer (cell coordinates, the grid's width and
    height, food amounts, the score, the tick counter) is an \<open>int\<close>: the doubles of the
    source are exact on integers below \<open>2 ^ 53\<close>;
  \<^item> every other number (positions, headings, field strengths) is a \<open>real\<close>, and the
    double-precision operations on them are taken as exact;
  \<^item> a store into the \<^verbatim>\<open>Float32Array\<close> of the scent field rounds to single precision
    (\<open>fround\<close> below), which is \<open>2 ^ 29\<close> times coarser than the arithmetic and decides how
    a decaying cell behaves near zero;
  \<^item> \<^verbatim>\<open>Math.random()\<close> has no state in the model: every function that draws a
    number takes the draw, a real in \<open>[0, 1)\<close>, as an argument.
\<close>

subsection \<open>Constants\<close>

definition CELL_SIZE :: int where "CELL_SIZE = 6"

definition MAX_ANTS :: int where "MAX_ANTS = 1000"
definition ANT_STEP_SPEED :: real where "ANT_STEP_SPEED = 1 / 10"
definition ANT_TURN_ANGLE :: real where "ANT_TURN_ANGLE = (pi / 180) * 18"
definition SENSOR_ANGLE :: real where "SENSOR_ANGLE = (pi / 180) * 28"
definition SENSOR_OFFSET :: int where "SENSOR_OFFSET = 2"
definition SENSOR_SPREAD :: int where "SENSOR_SPREAD = 1"

definition EVAPORATION :: real where "EVAPORATION = 6 / 1000"
definition DIFFUSION_WEIGHT :: real where "DIFFUSION_WEIGHT = 0"
definition PHEROMONE_DEPOSIT_FOOD :: real where "PHEROMONE_DEPOSIT_FOOD = 45 / 100"
definition PHEROMONE_DEPOSIT_HOME :: real where "PHEROMONE_DEPOSIT_HOME = 0"
definition PHEROMONE_MAX :: real where "PHEROMONE_MAX = 5"
definition SCENT_THRESHOLD :: real where "SCENT_THRESHOLD = 5 / 100"

definition FOOD_RADIUS_CELLS :: int where "FOOD_RADIUS_CELLS = 2"
definition NEST_RADIUS_CELLS :: int where "NEST_RADIUS_CELLS = 3"

subsection \<open>Utilities\<close>

definition clamp :: "'a::linorder \<Rightarrow> 'a \<Rightarrow> 'a \<Rightarrow> 'a" where
  "clamp v lo hi = max lo (min hi v)"

text \<open>\<^verbatim>\<open>indexOf\<close> reads the global \<^verbatim>\<open>GRID_WIDTH\<close>, which is the width every world is
  built with; the model passes it.\<close>

definition indexOf :: "int \<Rightarrow> int \<Rightarrow> int \<Rightarrow> int" where
  "indexOf gw x y = y * gw + x"

definition randomBetween :: "real \<Rightarrow> real \<Rightarrow> real \<Rightarrow> real" where
  "randomBetween rnd lo hi = lo + rnd * (hi - lo)"

definition distanceCells :: "real \<Rightarrow> real \<Rightarrow> real \<Rightarrow> real \<Rightarrow> real" where
  "distanceCells ax ay bx by = sqrt ((ax - bx)\<^sup>2 + (ay - by)\<^sup>2)"

text \<open>\<^verbatim>\<open>wrapAngle\<close>: its two loops, one after the other.\<close>

function wrap_up :: "real \<Rightarrow> real" where
  "wrap_up a = (if a < - pi then wrap_up (a + pi * 2) else a)"
  by pat_completeness auto
termination
proof (relation "measure (\<lambda>a. nat \<lceil>(- pi - a) / (pi * 2)\<rceil>)")
  show "wf (measure (\<lambda>a. nat \<lceil>(- pi - a) / (pi * 2)\<rceil>))" by simp
next
  fix a :: real
  assume lt: "a < - pi"
  have "(- pi - (a + pi * 2)) / (pi * 2) = (- pi - a) / (pi * 2) - 1"
    by (simp add: field_simps)
  then have c: "\<lceil>(- pi - (a + pi * 2)) / (pi * 2)\<rceil> = \<lceil>(- pi - a) / (pi * 2)\<rceil> - 1"
    by simp
  have "0 < (- pi - a) / (pi * 2)" using lt by simp
  then have "0 < \<lceil>(- pi - a) / (pi * 2)\<rceil>" by linarith
  with c show "(a + pi * 2, a) \<in> measure (\<lambda>a. nat \<lceil>(- pi - a) / (pi * 2)\<rceil>)"
    by simp
qed

function wrap_down :: "real \<Rightarrow> real" where
  "wrap_down a = (if a > pi then wrap_down (a - pi * 2) else a)"
  by pat_completeness auto
termination
proof (relation "measure (\<lambda>a. nat \<lceil>(a - pi) / (pi * 2)\<rceil>)")
  show "wf (measure (\<lambda>a. nat \<lceil>(a - pi) / (pi * 2)\<rceil>))" by simp
next
  fix a :: real
  assume lt: "pi < a"
  have "(a - pi * 2 - pi) / (pi * 2) = (a - pi) / (pi * 2) - 1"
    by (simp add: field_simps)
  then have c: "\<lceil>(a - pi * 2 - pi) / (pi * 2)\<rceil> = \<lceil>(a - pi) / (pi * 2)\<rceil> - 1"
    by simp
  have "0 < (a - pi) / (pi * 2)" using lt by simp
  then have "0 < \<lceil>(a - pi) / (pi * 2)\<rceil>" by linarith
  with c show "(a - pi * 2, a) \<in> measure (\<lambda>a. nat \<lceil>(a - pi) / (pi * 2)\<rceil>)"
    by simp
qed

text \<open>The two equations unfold without end under the simplifier; they are used by hand.\<close>

declare wrap_up.simps [simp del]
declare wrap_down.simps [simp del]

definition wrapAngle :: "real \<Rightarrow> real" where
  "wrapAngle a = wrap_down (wrap_up a)"

text \<open>\<^verbatim>\<open>Math.atan2(y, x)\<close>: the angle of the point \<open>(x, y)\<close>, in \<open>(- pi, pi]\<close>. The reals
  have one zero, so the results the source gives for a negative zero are left out.\<close>

definition Math_atan2 :: "real \<Rightarrow> real \<Rightarrow> real" where
  "Math_atan2 y x =
     (if 0 < x then arctan (y / x)
      else if x < 0 then (if 0 \<le> y then arctan (y / x) + pi else arctan (y / x) - pi)
      else if 0 < y then pi / 2
      else if y < 0 then - (pi / 2)
      else 0)"

subsection \<open>Stores into a \<^verbatim>\<open>Float32Array\<close>\<close>

text \<open>
  A store rounds the number to the nearest single-precision value, ties to the even
  significand. \<open>round_even\<close> is that rounding to an integer; \<open>f32_exponent\<close> finds the
  binary exponent of a magnitude, from \<open>- 126\<close> (the subnormal range, where the unit is
  \<open>2 powi - 149\<close>) up to \<open>127\<close>, by a search that stops after 253 steps; \<open>fround\<close> rounds
  the significand at that exponent. A magnitude of \<open>2 powi 128\<close> or more would be stored as
  infinity, which the reals do not have: the scent field never leaves \<open>[0, 5]\<close>
  (the field bounds are proved below), so that case does not arise.
\<close>

definition round_even :: "real \<Rightarrow> int" where
  "round_even x =
     (let f = \<lfloor>x\<rfloor>; d = x - of_int f
      in if d < 1 / 2 then f else if 1 / 2 < d then f + 1 else if even f then f else f + 1)"

fun f32_exponent_from :: "nat \<Rightarrow> int \<Rightarrow> real \<Rightarrow> int" where
  "f32_exponent_from 0 e a = e"
| "f32_exponent_from (Suc n) e a =
     (if a < 2 powi (e + 1) then e else f32_exponent_from n (e + 1) a)"

definition f32_exponent :: "real \<Rightarrow> int" where
  "f32_exponent a = f32_exponent_from 253 (- 126) a"

definition fround :: "real \<Rightarrow> real" where
  "fround v =
     (let a = \<bar>v\<bar>; u = 2 powi (f32_exponent a - 23)
      in sgn v * (of_int (round_even (a / u)) * u))"

text \<open>The non-negative single-precision values: a significand below \<open>2 ^ 24\<close> times the unit
  of an exponent of at least \<open>- 126\<close>.\<close>

definition is_f32 :: "real \<Rightarrow> bool" where
  "is_f32 y \<longleftrightarrow> (\<exists>k e. 0 \<le> k \<and> k < 2 ^ 24 \<and> - 126 \<le> e \<and> y = of_int k * 2 powi (e - 23))"

subsection \<open>World state\<close>

text \<open>
  The fields \<^verbatim>\<open>x\<close>, \<^verbatim>\<open>y\<close> of a pile, of the nest and of an ant carry a prefix. The
  typed arrays are lists. The source clamps or bounds-checks a cell before it reads or
  writes the array at its index, so every access falls inside the arrays of a world whose
  arrays have the size of its grid (\<open>grid_ok\<close> and \<open>indexOf_nat_less\<close> below); the
  list operations \<open>xs ! i\<close> and \<open>xs[i := v]\<close> are used for them.
\<close>

record foodPile =
  f_x :: int
  f_y :: int
  amount :: int

record nest_pos =
  nest_x :: int
  nest_y :: int

record ant =
  ant_x :: real
  ant_y :: real
  angle :: real
  hasFood :: bool
  wiggle :: real

record view_flags =
  showFoodPheromone :: bool
  showHomePheromone :: bool

record world =
  gridWidth :: int
  gridHeight :: int
  toFood :: "real list"
  obstacles :: "8 word list"
  foodPiles :: "foodPile list"
  ants :: "ant list"
  nest :: nest_pos
  score :: int
  ticks :: int
  tempToFood :: "real list"
  flags :: view_flags

text \<open>\<^verbatim>\<open>computeCanvasSize\<close>: the argument \<open>isMobile\<close> is the media query's answer and
  \<open>innerWidth\<close> the window's width; the result is the canvas width and height.\<close>

definition computeCanvasSize :: "bool \<Rightarrow> int \<Rightarrow> int \<times> int" where
  "computeCanvasSize isMobile innerWidth =
     (if isMobile then
        let available = max 240 (min 700 (innerWidth - 32));
            cells = max 40 (available div CELL_SIZE);
            side = cells * CELL_SIZE
        in (side, side)
      else (1400, 560))"

definition GRID_WIDTH :: "bool \<Rightarrow> int \<Rightarrow> int" where
  "GRID_WIDTH isMobile innerWidth = fst (computeCanvasSize isMobile innerWidth) div CELL_SIZE"

definition GRID_HEIGHT :: "bool \<Rightarrow> int \<Rightarrow> int" where
  "GRID_HEIGHT isMobile innerWidth = snd (computeCanvasSize isMobile innerWidth) div CELL_SIZE"

text \<open>The constructor of \<^verbatim>\<open>World\<close>, from the two grid dimensions.\<close>

definition new_World :: "int \<Rightarrow> int \<Rightarrow> world" where
  "new_World gw gh =
     \<lparr> gridWidth = gw, gridHeight = gh,
       toFood = replicate (nat (gw * gh)) 0,
       obstacles = replicate (nat (gw * gh)) 0,
       foodPiles = [], ants = [],
       nest = \<lparr> nest_x = gw div 2, nest_y = gh div 2 \<rparr>,
       score = 0, ticks = 0,
       tempToFood = replicate (nat (gw * gh)) 0,
       flags = \<lparr> showFoodPheromone = True, showHomePheromone = False \<rparr> \<rparr>"

subsection \<open>The food store\<close>

text \<open>\<^verbatim>\<open>addFood\<close>: \<^verbatim>\<open>find\<close> returns the first pile within \<^verbatim>\<open>FOOD_RADIUS_CELLS + 1\<close> of the
  cell, and that pile grows in place; without one a new pile is pushed.\<close>

definition near_pile :: "int \<Rightarrow> int \<Rightarrow> foodPile \<Rightarrow> bool" where
  "near_pile cellX cellY f \<longleftrightarrow>
     distanceCells (of_int (f_x f)) (of_int (f_y f)) (of_int cellX) (of_int cellY)
       \<le> of_int (FOOD_RADIUS_CELLS + 1)"

fun grow_first :: "(foodPile \<Rightarrow> bool) \<Rightarrow> int \<Rightarrow> foodPile list \<Rightarrow> foodPile list" where
  "grow_first P a [] = []"
| "grow_first P a (f # fs) =
     (if P f then f\<lparr>amount := amount f + a\<rparr> # fs else f # grow_first P a fs)"

definition addFood :: "world \<Rightarrow> int \<Rightarrow> int \<Rightarrow> int \<Rightarrow> world" where
  "addFood w cellX cellY a =
     (case find (near_pile cellX cellY) (foodPiles w) of
        Some existing \<Rightarrow> w\<lparr>foodPiles := grow_first (near_pile cellX cellY) a (foodPiles w)\<rparr>
      | None \<Rightarrow> w\<lparr>foodPiles := foodPiles w @ [\<lparr>f_x = cellX, f_y = cellY, amount = a\<rparr>]\<rparr>)"

text \<open>\<^verbatim>\<open>pickUpFoodAt\<close>: the first pile within \<^verbatim>\<open>FOOD_RADIUS_CELLS\<close> that holds food gives one
  unit and is spliced out when it is empty; the result is the flag returned and the piles.\<close>

fun pickUp :: "foodPile list \<Rightarrow> int \<Rightarrow> int \<Rightarrow> bool \<times> foodPile list" where
  "pickUp [] cellX cellY = (False, [])"
| "pickUp (f # fs) cellX cellY =
     (if distanceCells (of_int (f_x f)) (of_int (f_y f)) (of_int cellX) (of_int cellY)
           \<le> of_int FOOD_RADIUS_CELLS \<and> amount f > 0
      then (True, if amount f - 1 \<le> 0 then fs else f\<lparr>amount := amount f - 1\<rparr> # fs)
      else (let (ok, fs') = pickUp fs cellX cellY in (ok, f # fs')))"

definition pickUpFoodAt :: "world \<Rightarrow> int \<Rightarrow> int \<Rightarrow> bool \<times> world" where
  "pickUpFoodAt w cellX cellY =
     (let (ok, fs) = pickUp (foodPiles w) cellX cellY in (ok, w\<lparr>foodPiles := fs\<rparr>))"

definition deliverFood :: "world \<Rightarrow> world" where
  "deliverFood w = w\<lparr>score := score w + 1\<rparr>"

subsection \<open>The obstacle mask\<close>

text \<open>\<^verbatim>\<open>setWall\<close>: the body of the two loops, then the loops over the square around the
  cell. A store outside a typed array is ignored; the bounds test comes first anyway.\<close>

definition setWall_cell :: "world \<Rightarrow> int \<Rightarrow> int \<Rightarrow> bool \<Rightarrow> int \<Rightarrow> int \<Rightarrow> int \<Rightarrow> 8 word list \<Rightarrow> 8 word list" where
  "setWall_cell w cellX cellY isWall radiusCells y x obs =
     (if x < 0 \<or> x \<ge> gridWidth w \<or> y < 0 \<or> y \<ge> gridHeight w then obs
      else if distanceCells (of_int x) (of_int y) (of_int (nest_x (nest w))) (of_int (nest_y (nest w)))
                \<le> of_int NEST_RADIUS_CELLS then obs
      else if distanceCells (of_int x) (of_int y) (of_int cellX) (of_int cellY) \<le> of_int radiusCells
           then obs[nat (indexOf (gridWidth w) x y) := (if isWall then 1 else 0)]
      else obs)"

definition setWall :: "world \<Rightarrow> int \<Rightarrow> int \<Rightarrow> bool \<Rightarrow> int \<Rightarrow> world" where
  "setWall w cellX cellY isWall radiusCells =
     w\<lparr>obstacles :=
         fold (\<lambda>y. fold (setWall_cell w cellX cellY isWall radiusCells y)
                         [cellX - radiusCells .. cellX + radiusCells])
              [cellY - radiusCells .. cellY + radiusCells] (obstacles w)\<rparr>"

subsection \<open>The scent field\<close>

text \<open>\<^verbatim>\<open>diffuseAndEvaporate\<close>: \<open>advance_cell\<close> is the body of the two loops up to the store
  into \<^verbatim>\<open>dstF\<close>, which rounds. Both buffers have the length the constructor gave them, so
  the final \<^verbatim>\<open>set\<close> copies the whole of \<^verbatim>\<open>dstF\<close> over \<^verbatim>\<open>toFood\<close>.\<close>

definition advance_cell :: "world \<Rightarrow> int \<Rightarrow> int \<Rightarrow> real" where
  "advance_cell wld x y =
     (let w = gridWidth wld; h = gridHeight wld; srcF = toFood wld;
          yTop = (if y > 0 then y - 1 else y);
          yBot = (if y < h - 1 then y + 1 else y);
          xL = (if x > 0 then x - 1 else x);
          xR = (if x < w - 1 then x + 1 else x);
          c = srcF ! nat (indexOf w x y);
          n = srcF ! nat (indexOf w x yTop);
          s = srcF ! nat (indexOf w x yBot);
          e = srcF ! nat (indexOf w xR y);
          wv = srcF ! nat (indexOf w xL y);
          ne = srcF ! nat (indexOf w xR yTop);
          nw = srcF ! nat (indexOf w xL yTop);
          se = srcF ! nat (indexOf w xR yBot);
          sw = srcF ! nat (indexOf w xL yBot);
          neighborAvgF = (n + s + e + wv + ne + nw + se + sw) / 8;
          blendedF = c * (1 - DIFFUSION_WEIGHT) + neighborAvgF * DIFFUSION_WEIGHT
      in fround (max 0 (blendedF * (1 - EVAPORATION))))"

definition diffuseAndEvaporate :: "world \<Rightarrow> world" where
  "diffuseAndEvaporate wld =
     (let w = gridWidth wld; h = gridHeight wld;
          dstF = fold (\<lambda>y. fold (\<lambda>x dst. dst[nat (indexOf w x y) := advance_cell wld x y])
                                  [0 .. w - 1])
                      [0 .. h - 1] (tempToFood wld)
      in wld\<lparr>tempToFood := dstF, toFood := dstF\<rparr>)"

subsection \<open>Ants\<close>

text \<open>The constructor draws the wiggle; \<^verbatim>\<open>spawnAtNest\<close> draws the heading before it.\<close>

definition new_Ant :: "real \<Rightarrow> real \<Rightarrow> real \<Rightarrow> real \<Rightarrow> ant" where
  "new_Ant x y ang rWiggle =
     \<lparr> ant_x = x, ant_y = y, angle = ang, hasFood = False,
       wiggle = randomBetween rWiggle (- pi) pi \<rparr>"

definition spawnAtNest :: "real \<Rightarrow> real \<Rightarrow> real \<Rightarrow> real \<Rightarrow> ant" where
  "spawnAtNest x y rAngle rWiggle = new_Ant x y (randomBetween rAngle (- pi) pi) rWiggle"

record sensed =
  forward :: real
  left :: real
  right :: real

text \<open>\<^verbatim>\<open>sampleCone\<close>: \<open>sample_at\<close> is the body of the inner loop on the pair of the sum and
  the number of samples.\<close>

definition sample_at :: "world \<Rightarrow> ant \<Rightarrow> real list \<Rightarrow> real \<Rightarrow> int \<Rightarrow> int \<Rightarrow> real \<times> int \<Rightarrow> real \<times> int" where
  "sample_at wld a field ang d s acc =
     (let sx = \<lfloor>ant_x a + cos ang * of_int d\<rfloor>;
          sy = \<lfloor>ant_y a + sin ang * of_int d\<rfloor>;
          ox = \<lfloor>of_int sx + cos (ang + pi / 2) * of_int s\<rfloor>;
          oy = \<lfloor>of_int sy + sin (ang + pi / 2) * of_int s\<rfloor>
      in if ox < 0 \<or> oy < 0 \<or> ox \<ge> gridWidth wld \<or> oy \<ge> gridHeight wld then acc
         else if obstacles wld ! nat (indexOf (gridWidth wld) ox oy) = 1 then acc
         else (fst acc + field ! nat (indexOf (gridWidth wld) ox oy), snd acc + 1))"

definition sampleCone :: "world \<Rightarrow> ant \<Rightarrow> real list \<Rightarrow> real \<Rightarrow> real" where
  "sampleCone wld a field ang =
     (let (sum, samples) =
            fold (\<lambda>d. fold (sample_at wld a field ang d) [- SENSOR_SPREAD .. SENSOR_SPREAD])
                 [1 .. SENSOR_OFFSET + 1] (0, 0)
      in if samples > 0 then sum / of_int samples else 0)"

definition senseDirections :: "world \<Rightarrow> ant \<Rightarrow> real list \<Rightarrow> sensed" where
  "senseDirections wld a field =
     (let leftAngle = angle a + SENSOR_ANGLE;
          rightAngle = angle a - SENSOR_ANGLE;
          f = sampleCone wld a field (angle a);
          l = sampleCone wld a field leftAngle;
          r = sampleCone wld a field rightAngle
      in \<lparr> forward = f, left = l, right = r \<rparr>)"

text \<open>\<^verbatim>\<open>handleCollisions\<close>: the flag returned and the ant with its new heading; \<open>rBounce\<close>
  is the draw of the wall reflection.\<close>

definition handleCollisions :: "world \<Rightarrow> ant \<Rightarrow> real \<Rightarrow> real \<Rightarrow> real \<Rightarrow> bool \<times> ant" where
  "handleCollisions wld a nx ny rBounce =
     (let cx = \<lfloor>nx\<rfloor>; cy = \<lfloor>ny\<rfloor>;
          (bounced1, a1) = (if cx < 0 \<or> cx \<ge> gridWidth wld
                            then (True, a\<lparr>angle := pi - angle a\<rparr>) else (False, a));
          (bounced2, a2) = (if cy < 0 \<or> cy \<ge> gridHeight wld
                            then (True, a1\<lparr>angle := - angle a1\<rparr>) else (bounced1, a1));
          cx' = clamp cx 0 (gridWidth wld - 1);
          cy' = clamp cy 0 (gridHeight wld - 1)
      in if obstacles wld ! nat (indexOf (gridWidth wld) cx' cy') = 1
         then (True, a2\<lparr>angle := wrapAngle (angle a2 + pi / 2 + (rBounce - 1 / 2))\<rparr>)
         else (bounced2, a2))"

text \<open>The turn decision of \<^verbatim>\<open>step\<close>; \<open>rTurn\<close> is the draw of the random turn.\<close>

definition decide_turn :: "world \<Rightarrow> ant \<Rightarrow> sensed \<Rightarrow> real \<Rightarrow> real" where
  "decide_turn wld a sn rTurn =
     (let signalStrength = max (forward sn) (max (left sn) (right sn))
      in if hasFood a then
           (let dx = of_int (nest_x (nest wld)) - ant_x a;
                dy = of_int (nest_y (nest wld)) - ant_y a;
                homeAngle = Math_atan2 dy dx;
                delta = wrapAngle (homeAngle - angle a);
                maxTurn = ANT_TURN_ANGLE;
                turn = clamp delta (- maxTurn) maxTurn
            in if signalStrength \<ge> SCENT_THRESHOLD then
                 (let turn1 = (if left sn > right sn \<and> left sn > forward sn
                               then turn + SENSOR_ANGLE * (25 / 100) else turn)
                  in if right sn > left sn \<and> right sn > forward sn
                     then turn1 - SENSOR_ANGLE * (25 / 100) else turn1)
               else turn)
         else if signalStrength \<ge> SCENT_THRESHOLD then
           (if forward sn \<ge> left sn \<and> forward sn \<ge> right sn then 0
            else if left sn > right sn then SENSOR_ANGLE
            else if right sn > left sn then - SENSOR_ANGLE
            else (rTurn - 1 / 2) * ANT_TURN_ANGLE)
         else (rTurn - 1 / 2) * ANT_TURN_ANGLE)"

text \<open>
  \<^verbatim>\<open>step\<close>, on the world and the ant, both returned updated. Its blocks are separate
  definitions, in the order of the source: sensing (\<open>sense\<close>), the turn (\<open>decide_turn\<close>
  above), turning and moving (\<open>turn_and_move\<close>, which returns the flag \<^verbatim>\<open>bounced\<close> with
  the ant), the deposit (\<open>deposit\<close>) and the interaction with food and nest (\<open>interact\<close>).
  A falsy \<^verbatim>\<open>speedMultiplier\<close> (zero) counts as 1.
\<close>

definition sense :: "world \<Rightarrow> ant \<Rightarrow> sensed" where
  "sense wld a =
     (let preferredField = (if hasFood a then None else Some (toFood wld))
      in case preferredField of
           Some field \<Rightarrow> senseDirections wld a field
         | None \<Rightarrow> \<lparr> forward = 0, left = 0, right = 0 \<rparr>)"

definition turn_and_move :: "world \<Rightarrow> ant \<Rightarrow> real \<Rightarrow> real \<Rightarrow> real \<Rightarrow> bool \<times> ant" where
  "turn_and_move wld a turn speedMultiplier rBounce =
     (let a1 = a\<lparr>angle := wrapAngle (angle a + turn)\<rparr>;
          stp = ANT_STEP_SPEED * (if speedMultiplier = 0 then 1 else speedMultiplier);
          nx = ant_x a1 + cos (angle a1) * stp;
          ny = ant_y a1 + sin (angle a1) * stp;
          (bounced, a2) = handleCollisions wld a1 nx ny rBounce
      in (bounced, if \<not> bounced then a2\<lparr>ant_x := nx, ant_y := ny\<rparr> else a2))"

definition deposit :: "world \<Rightarrow> ant \<Rightarrow> real \<Rightarrow> world" where
  "deposit wld a depositRate =
     (let ix = clamp \<lfloor>ant_x a\<rfloor> 0 (gridWidth wld - 1);
          iy = clamp \<lfloor>ant_y a\<rfloor> 0 (gridHeight wld - 1);
          i = indexOf (gridWidth wld) ix iy
      in if hasFood a
         then wld\<lparr>toFood := (toFood wld)
                [nat i := fround (min PHEROMONE_MAX (toFood wld ! nat i + depositRate))]\<rparr>
         else wld)"

definition interact :: "world \<Rightarrow> ant \<Rightarrow> world \<times> ant" where
  "interact wld a =
     (let ix = clamp \<lfloor>ant_x a\<rfloor> 0 (gridWidth wld - 1);
          iy = clamp \<lfloor>ant_y a\<rfloor> 0 (gridHeight wld - 1)
      in if \<not> hasFood a then
           (let (ok, wld') = pickUpFoodAt wld ix iy
            in if ok
               then (wld', a\<lparr>hasFood := True,
                              angle := Math_atan2 (of_int (nest_y (nest wld')) - ant_y a)
                                                  (of_int (nest_x (nest wld')) - ant_x a)\<rparr>)
               else (wld', a))
         else if distanceCells (of_int ix) (of_int iy)
                   (of_int (nest_x (nest wld))) (of_int (nest_y (nest wld)))
                 \<le> of_int NEST_RADIUS_CELLS
         then (deliverFood wld, a\<lparr>hasFood := False\<rparr>)
         else (wld, a))"

definition step :: "world \<Rightarrow> ant \<Rightarrow> real \<Rightarrow> real \<Rightarrow> real \<Rightarrow> world \<times> ant" where
  "step wld a speedMultiplier rTurn rBounce =
     (let depositRate = (if hasFood a then PHEROMONE_DEPOSIT_FOOD else PHEROMONE_DEPOSIT_HOME);
          sn = sense wld a;
          turn = decide_turn wld a sn rTurn;
          (bounced, a') = turn_and_move wld a turn speedMultiplier rBounce;
          wld' = deposit wld a' depositRate
      in interact wld' a')"

text \<open>The call \<^verbatim>\<open>world.ants[i].step(world, speedMultiplier)\<close> of the main loop.\<close>

definition step_ant :: "world \<Rightarrow> nat \<Rightarrow> real \<Rightarrow> real \<Rightarrow> real \<Rightarrow> world" where
  "step_ant wld i speedMultiplier rTurn rBounce =
     (let (wld', a') = step wld (ants wld ! i) speedMultiplier rTurn rBounce
      in wld'\<lparr>ants := (ants wld')[i := a']\<rparr>)"

subsection \<open>Population, reset and the tick\<close>

text \<open>A spawn makes four draws, in this order: the two jitters, the heading, the wiggle.
  \<open>rnd\<close> is the sequence of the draws of one call.\<close>

definition spawn_nth :: "world \<Rightarrow> (nat \<Rightarrow> real) \<Rightarrow> nat \<Rightarrow> ant" where
  "spawn_nth wld rnd i =
     spawnAtNest (of_int (nest_x (nest wld)) + rnd (4 * i) - 1 / 2)
                 (of_int (nest_y (nest wld)) + rnd (4 * i + 1) - 1 / 2)
                 (rnd (4 * i + 2)) (rnd (4 * i + 3))"

definition reset :: "world \<Rightarrow> int \<Rightarrow> (nat \<Rightarrow> real) \<Rightarrow> world" where
  "reset wld antCount rnd =
     wld\<lparr> toFood := map (\<lambda>_. 0) (toFood wld),
          obstacles := map (\<lambda>_. 0) (obstacles wld),
          foodPiles := [],
          ants := map (spawn_nth wld rnd) [0 ..< nat antCount],
          score := 0,
          ticks := 0 \<rparr>"

definition setAntCount :: "world \<Rightarrow> int \<Rightarrow> (nat \<Rightarrow> real) \<Rightarrow> world" where
  "setAntCount wld targetCount rnd =
     (let targetCount = clamp targetCount 1 MAX_ANTS
      in if targetCount > int (length (ants wld)) then
           (let toAdd = targetCount - int (length (ants wld))
            in wld\<lparr>ants := ants wld @ map (spawn_nth wld rnd) [0 ..< nat toAdd]\<rparr>)
         else if targetCount < int (length (ants wld)) then
           wld\<lparr>ants := take (nat targetCount) (ants wld)\<rparr>
         else wld)"

text \<open>One pass of the loop body of \<^verbatim>\<open>loop\<close>: every ant steps, in order, then the field
  advances and the tick is counted. \<open>draws i\<close> are the two draws of ant \<open>i\<close>.\<close>

definition tick :: "world \<Rightarrow> real \<Rightarrow> (nat \<Rightarrow> real \<times> real) \<Rightarrow> world" where
  "tick wld speedMultiplier draws =
     (let wld1 = fold (\<lambda>i w. step_ant w i speedMultiplier (fst (draws i)) (snd (draws i)))
                      [0 ..< length (ants wld)] wld;
          wld2 = diffuseAndEvaporate wld1
      in wld2\<lparr>ticks := ticks wld2 + 1\<rparr>)"

subsection \<open>Reachable worlds\<close>

text \<open>What the page does to its world: the editing tools, the sliders, the reset button and
  the parts of a tick. A draw is a real in \<open>[0, 1)\<close>.\<close>

datatype action =
    Step nat real real real
  | Advance
  | CountTick
  | AddFood int int int
  | SetWall int int bool int
  | SetAntCount int "nat \<Rightarrow> real"
  | Reset int "nat \<Rightarrow> real"

fun apply_action :: "world \<Rightarrow> action \<Rightarrow> world" where
  "apply_action wld (Step i speedMultiplier rTurn rBounce) = step_ant wld i speedMultiplier rTurn rBounce"
| "apply_action wld Advance = diffuseAndEvaporate wld"
| "apply_action wld CountTick = wld\<lparr>ticks := ticks wld + 1\<rparr>"
| "apply_action wld (AddFood cellX cellY a) = addFood wld cellX cellY a"
| "apply_action wld (SetWall cellX cellY isWall radiusCells) = setWall wld cellX cellY isWall radiusCells"
| "apply_action wld (SetAntCount targetCount rnd) = setAntCount wld targetCount rnd"
| "apply_action wld (Reset antCount rnd) = reset wld antCount rnd"

definition is_draw :: "real \<Rightarrow> bool" where
  "is_draw r \<longleftrightarrow> 0 \<le> r \<and> r < 1"

fun action_ok :: "world \<Rightarrow> action \<Rightarrow> bool" where
  "action_ok wld (Step i speedMultiplier rTurn rBounce) \<longleftrightarrow>
     i < length (ants wld) \<and> is_draw rTurn \<and> is_draw rBounce"
| "action_ok wld (SetAntCount targetCount rnd) \<longleftrightarrow> (\<forall>k. is_draw (rnd k))"
| "action_ok wld (Reset antCount rnd) \<longleftrightarrow> (\<forall>k. is_draw (rnd k))"
| "action_ok wld _ \<longleftrightarrow> True"

inductive reachable :: "world \<Rightarrow> bool" where
  start: "\<forall>k. is_draw (rnd k) \<Longrightarrow>
          reachable (reset (new_World (GRID_WIDTH isMobile innerWidth) (GRID_HEIGHT isMobile innerWidth))
                           antCount rnd)"
| act: "reachable wld \<Longrightarrow> action_ok wld a \<Longrightarrow> reachable (apply_action wld a)"

subsection \<open>Well-formed worlds\<close>

text \<open>The shape every world of the page has: a grid of at least two cells each way (the
  page's grids are 233 by 93, or a square of 40 to 116 cells), the three arrays of the
  grid's size and the nest at the centre.\<close>

definition grid_ok :: "world \<Rightarrow> bool" where
  "grid_ok w \<longleftrightarrow>
     2 \<le> gridWidth w \<and> 2 \<le> gridHeight w
     \<and> length (toFood w) = nat (gridWidth w * gridHeight w)
     \<and> length (tempToFood w) = nat (gridWidth w * gridHeight w)
     \<and> length (obstacles w) = nat (gridWidth w * gridHeight w)
     \<and> nest w = \<lparr> nest_x = gridWidth w div 2, nest_y = gridHeight w div 2 \<rparr>"

definition in_grid :: "world \<Rightarrow> int \<Rightarrow> int \<Rightarrow> bool" where
  "in_grid w x y \<longleftrightarrow> 0 \<le> x \<and> x < gridWidth w \<and> 0 \<le> y \<and> y < gridHeight w"

text \<open>A buffer of the scent field holds single-precision values of at most
  \<^verbatim>\<open>PHEROMONE_MAX\<close>.\<close>

definition field_ok :: "real list \<Rightarrow> bool" where
  "field_ok xs \<longleftrightarrow> (\<forall>v \<in> set xs. is_f32 v \<and> v \<le> PHEROMONE_MAX)"

text \<open>The cells of the grid as pairs \<open>(y, x)\<close>, in the order the loops of
  \<^verbatim>\<open>diffuseAndEvaporate\<close> visit them.\<close>

definition grid_cells :: "world \<Rightarrow> (int \<times> int) list" where
  "grid_cells wld = List.product [0 .. gridHeight wld - 1] [0 .. gridWidth wld - 1]"

definition fields_ok :: "world \<Rightarrow> bool" where
  "fields_ok w \<longleftrightarrow> field_ok (toFood w) \<and> field_ok (tempToFood w)"

text \<open>The value of the cell \<open>(x, y)\<close> after \<open>n\<close> calls of \<^verbatim>\<open>diffuseAndEvaporate\<close> with nothing
  in between.\<close>

definition cell_after :: "world \<Rightarrow> int \<Rightarrow> int \<Rightarrow> nat \<Rightarrow> real" where
  "cell_after w x y n = toFood ((diffuseAndEvaporate ^^ n) w) ! nat (indexOf (gridWidth w) x y)"

text \<open>The cells within \<^verbatim>\<open>NEST_RADIUS_CELLS\<close> of the nest, and the worlds in which none of
  them is blocked.\<close>

definition near_nest :: "world \<Rightarrow> int \<Rightarrow> int \<Rightarrow> bool" where
  "near_nest w x y \<longleftrightarrow>
     distanceCells (of_int x) (of_int y) (of_int (nest_x (nest w))) (of_int (nest_y (nest w)))
       \<le> of_int NEST_RADIUS_CELLS"

definition nest_clear :: "world \<Rightarrow> bool" where
  "nest_clear w \<longleftrightarrow>
     (\<forall>x y. in_grid w x y \<and> near_nest w x y \<longrightarrow> obstacles w ! nat (indexOf (gridWidth w) x y) = 0)"

text \<open>The cell of an ant, and the worlds whose ants are all in a cell of the grid.\<close>

definition ant_in_grid :: "world \<Rightarrow> ant \<Rightarrow> bool" where
  "ant_in_grid w a \<longleftrightarrow> in_grid w \<lfloor>ant_x a\<rfloor> \<lfloor>ant_y a\<rfloor>"

definition ants_in_grid :: "world \<Rightarrow> bool" where
  "ants_in_grid w \<longleftrightarrow> (\<forall>a \<in> set (ants w). ant_in_grid w a)"

text \<open>
  The turn of a searching ant in the words of the specification, to compare with
  \<open>decide_turn\<close>: \<^verbatim>\<open>MAX_TURN_PER_TICK\<close> is \<^verbatim>\<open>ANT_TURN_ANGLE\<close>, and a random angle in \<open>\<plusminus> m\<close> is
  the draw spread over \<open>[- m, m)\<close>, as \<^verbatim>\<open>randomBetween\<close> does. The wander turn ranges over
  half the maximal turn, the turn of the tie over the whole of it.
\<close>

definition spec_searching_turn :: "sensed \<Rightarrow> real \<Rightarrow> real" where
  "spec_searching_turn sn rTurn =
     (if max (forward sn) (max (left sn) (right sn)) < SCENT_THRESHOLD
      then randomBetween rTurn (- (ANT_TURN_ANGLE / 2)) (ANT_TURN_ANGLE / 2)
      else if forward sn \<ge> left sn \<and> forward sn \<ge> right sn then 0
      else if left sn > right sn then SENSOR_ANGLE
      else if right sn > left sn then - SENSOR_ANGLE
      else randomBetween rTurn (- ANT_TURN_ANGLE) ANT_TURN_ANGLE)"

text \<open>The actions that are a reset of the world.\<close>

fun is_reset :: "action \<Rightarrow> bool" where
  "is_reset (Reset antCount rnd) = True"
| "is_reset _ = False"

section \<open>Properties\<close>

subsection \<open>Distances between cells\<close>

lemma distanceCells_le_iff:
  "0 \<le> r \<Longrightarrow> distanceCells ax ay bx by \<le> r \<longleftrightarrow> (ax - bx)\<^sup>2 + (ay - by)\<^sup>2 \<le> r\<^sup>2"
  unfolding distanceCells_def
  by (metis real_sqrt_le_iff real_sqrt_abs abs_of_nonneg)

lemma distanceCells_commute: "distanceCells ax ay bx by = distanceCells bx by ax ay"
  unfolding distanceCells_def by (simp add: power2_commute)

subsection \<open>Single-precision rounding\<close>

lemma round_even_le: "x \<le> of_int N \<Longrightarrow> round_even x \<le> N"
  unfolding round_even_def Let_def by (auto; linarith)

lemma round_even_ge: "of_int N \<le> x \<Longrightarrow> N \<le> round_even x"
  unfolding round_even_def Let_def by (auto; linarith)

lemma round_even_of_int: "round_even (of_int N) = N"
  unfolding round_even_def Let_def by simp

lemma round_even_below_half: "x < of_int N - 1 / 2 \<Longrightarrow> round_even x \<le> N - 1"
  unfolding round_even_def Let_def by (auto; linarith)

lemma round_even_near: "\<bar>x - of_int N\<bar> < 1 / 2 \<Longrightarrow> round_even x = N"
proof -
  assume "\<bar>x - of_int N\<bar> < 1 / 2"
  then have b: "of_int N - 1 / 2 < x" "x < of_int N + 1 / 2" by linarith+
  then have "\<lfloor>x\<rfloor> = N \<or> \<lfloor>x\<rfloor> = N - 1" by linarith
  then show ?thesis
  proof
    assume f: "\<lfloor>x\<rfloor> = N"
    then show ?thesis using b unfolding round_even_def Let_def by simp
  next
    assume f: "\<lfloor>x\<rfloor> = N - 1"
    then show ?thesis using b unfolding round_even_def Let_def by simp
  qed
qed

lemma exp_from_lower_bound: "e0 \<le> f32_exponent_from n e0 a"
proof (induction n arbitrary: e0)
  case 0
  then show ?case by simp
next
  case (Suc n)
  from Suc.IH [of "e0 + 1"] show ?case by auto
qed

lemma exp_from_le: "a < 2 powi (e + 1) \<Longrightarrow> e0 \<le> e \<Longrightarrow> f32_exponent_from n e0 a \<le> e"
proof (induction n arbitrary: e0)
  case 0
  then show ?case by simp
next
  case (Suc n)
  show ?case
  proof (cases "a < 2 powi (e0 + 1)")
    case True
    then show ?thesis using Suc.prems by simp
  next
    case False
    have "e0 + 1 \<le> e"
    proof (rule ccontr)
      assume "\<not> e0 + 1 \<le> e"
      then have "e + 1 \<le> e0 + 1" by simp
      then have "(2::real) powi (e + 1) \<le> 2 powi (e0 + 1)"
        by (intro power_int_increasing) auto
      with Suc.prems(1) False show False by simp
    qed
    then show ?thesis using False Suc.IH [OF Suc.prems(1)] by simp
  qed
qed

lemma exp_from_upper: "a < 2 powi (e0 + int n + 1) \<Longrightarrow> a < 2 powi (f32_exponent_from n e0 a + 1)"
proof (induction n arbitrary: e0)
  case 0
  then show ?case by simp
next
  case (Suc n)
  have "e0 + int (Suc n) + 1 = (e0 + 1) + int n + 1" by simp
  with Suc.prems have "a < 2 powi ((e0 + 1) + int n + 1)" by simp
  from Suc.IH [OF this] show ?case by simp
qed

lemma exp_from_lower: "e0 < f32_exponent_from n e0 a \<Longrightarrow> 2 powi (f32_exponent_from n e0 a) \<le> a"
proof (induction n arbitrary: e0)
  case 0
  then show ?case by simp
next
  case (Suc n)
  show ?case
  proof (cases "a < 2 powi (e0 + 1)")
    case True
    then show ?thesis using Suc.prems by simp
  next
    case False
    show ?thesis
    proof (cases "e0 + 1 < f32_exponent_from n (e0 + 1) a")
      case True
      from Suc.IH [OF this] False show ?thesis by simp
    next
      case F2: False
      with exp_from_lower_bound [of "e0 + 1" n a]
      have "f32_exponent_from n (e0 + 1) a = e0 + 1" by simp
      with False show ?thesis by simp
    qed
  qed
qed

lemma f32_exponent_ge: "- 126 \<le> f32_exponent a"
  unfolding f32_exponent_def by (rule exp_from_lower_bound)

lemma f32_exponent_le: "a < 2 powi (e + 1) \<Longrightarrow> - 126 \<le> e \<Longrightarrow> f32_exponent a \<le> e"
  unfolding f32_exponent_def by (rule exp_from_le)

lemma f32_exponent_upper: "a < 2 powi 128 \<Longrightarrow> a < 2 powi (f32_exponent a + 1)"
  unfolding f32_exponent_def using exp_from_upper [of a "- 126" 253] by simp

lemma f32_exponent_lower: "- 126 < f32_exponent a \<Longrightarrow> 2 powi (f32_exponent a) \<le> a"
  unfolding f32_exponent_def by (rule exp_from_lower)

lemma f32_exponent_tiny: "a < 2 powi (- 125) \<Longrightarrow> f32_exponent a = - 126"
  using f32_exponent_le [of a "- 126"] f32_exponent_ge [of a] by simp

lemma fround_0: "fround 0 = 0"
  by (simp add: fround_def)

lemma fround_pos_eq:
  "0 \<le> v \<Longrightarrow> fround v = of_int (round_even (v / 2 powi (f32_exponent v - 23))) * 2 powi (f32_exponent v - 23)"
  by (cases "v = 0") (simp_all add: fround_def Let_def round_even_def)

lemma fround_nonneg: "0 \<le> v \<Longrightarrow> 0 \<le> fround v"
proof -
  assume v: "0 \<le> v"
  have "0 \<le> v / 2 powi (f32_exponent v - 23)" using v by simp
  then have "0 \<le> round_even (v / 2 powi (f32_exponent v - 23))"
    using round_even_ge [of 0] by simp
  then show ?thesis by (simp add: fround_pos_eq [OF v])
qed

lemma is_f32_0: "is_f32 0"
  unfolding is_f32_def by (rule exI [of _ 0], rule exI [of _ 0]) simp

lemma is_f32_nonneg: "is_f32 y \<Longrightarrow> 0 \<le> y"
  unfolding is_f32_def by auto

lemma powi_shift: "(2::real) powi a * 2 powi b = 2 powi (a + b)"
  by (simp add: power_int_add)

lemma pow24_shift: "(2::real) ^ 24 * 2 powi (e - 23) = 2 powi (e + 1)"
proof -
  have "(2::real) ^ 24 = 2 powi 24" by simp
  then have "(2::real) ^ 24 * 2 powi (e - 23) = 2 powi 24 * 2 powi (e - 23)" by (simp only:)
  also have "\<dots> = 2 powi (24 + (e - 23))" by (rule powi_shift)
  also have "24 + (e - 23) = e + 1" by simp
  finally show ?thesis .
qed

lemma is_f32_lt_pow:
  assumes "0 \<le> k" "k < 2 ^ 24" "y = real_of_int k * 2 powi (e - 23)"
  shows "y < 2 powi (e + 1)"
proof -
  have "real_of_int k < 2 ^ 24" using assms(2) by (metis of_int_less_numeral_power_cancel_iff)
  then have "of_int k * 2 powi (e - 23) < 2 ^ 24 * (2::real) powi (e - 23)"
    by (intro mult_strict_right_mono) auto
  also have "\<dots> = 2 powi (e + 1)" by (rule pow24_shift)
  finally show ?thesis using assms(3) by simp
qed

text \<open>A float32 value is an integer multiple of the unit of every exponent below its own.\<close>

lemma f32_multiple:
  assumes "e' \<le> e"
  shows "of_int k * 2 powi (e - 23) / 2 powi (e' - 23) = real_of_int (k * 2 ^ nat (e - e'))"
proof -
  have "(2::real) powi (e - 23) / 2 powi (e' - 23) = 2 powi (e - e')"
    by (simp add: power_int_diff flip: )
  also have "\<dots> = 2 ^ nat (e - e')"
    using assms by (simp add: power_int_def)
  finally have "(2::real) powi (e - 23) / 2 powi (e' - 23) = 2 ^ nat (e - e')" .
  then have "of_int k * ((2::real) powi (e - 23) / 2 powi (e' - 23)) = of_int k * 2 ^ nat (e - e')"
    by (simp only:)
  then show ?thesis by simp
qed

lemma fround_le:
  assumes "is_f32 y" "0 \<le> v" "v \<le> y"
  shows "fround v \<le> y"
proof -
  from assms(1) obtain k e where k: "0 \<le> k" "k < 2 ^ 24" and e: "- 126 \<le> e"
    and y: "y = of_int k * 2 powi (e - 23)"
    unfolding is_f32_def by blast
  define e' where "e' = f32_exponent v"
  define u where "u = (2::real) powi (e' - 23)"
  have u: "0 < u" unfolding u_def by simp
  have "v < 2 powi (e + 1)" using is_f32_lt_pow [OF k y] assms(3) by simp
  then have le: "e' \<le> e" unfolding e'_def using e by (rule f32_exponent_le)
  have yu: "y / u = real_of_int (k * 2 ^ nat (e - e'))"
    unfolding y u_def by (rule f32_multiple [OF le])
  have "v / u \<le> y / u" using assms(3) u by (simp add: divide_right_mono)
  then have "round_even (v / u) \<le> k * 2 ^ nat (e - e')"
    unfolding yu by (rule round_even_le)
  then have "real_of_int (round_even (v / u)) \<le> y / u"
    unfolding yu by (simp only: of_int_le_iff)
  then have "real_of_int (round_even (v / u)) * u \<le> y"
    using u by (simp add: pos_le_divide_eq)
  then show ?thesis
    unfolding fround_pos_eq [OF assms(2)] u_def e'_def .
qed

lemma fround_is_f32:
  assumes "0 \<le> v" "v < 2 powi 127"
  shows "is_f32 (fround v)"
proof -
  define e where "e = f32_exponent v"
  define u where "u = (2::real) powi (e - 23)"
  define n where "n = round_even (v / u)"
  have u: "0 < u" unfolding u_def by simp
  have fr: "fround v = of_int n * 2 powi (e - 23)"
    unfolding fround_pos_eq [OF assms(1)] n_def u_def e_def ..
  have "v < 2 powi 128"
    using assms(2) power_int_strict_increasing [of 127 128 "2::real"] by simp
  then have "v < 2 powi (e + 1)" unfolding e_def by (rule f32_exponent_upper)
  then have "v / u < 2 powi (e + 1) / u" using u by (simp add: divide_strict_right_mono)
  also have "2 powi (e + 1) / u = 2 ^ 24"
    unfolding u_def using pow24_shift [of e] by (simp add: field_simps)
  finally have "v / u \<le> real_of_int (2 ^ 24)" by simp
  then have n_le: "n \<le> 2 ^ 24" unfolding n_def by (rule round_even_le)
  have "real_of_int 0 \<le> v / u" using assms(1) u by simp
  then have n_ge: "0 \<le> n" unfolding n_def by (rule round_even_ge)
  have e_ge: "- 126 \<le> e" unfolding e_def by (rule f32_exponent_ge)
  show ?thesis
  proof (cases "n < 2 ^ 24")
    case True
    then show ?thesis unfolding is_f32_def fr using n_ge e_ge by blast
  next
    case False
    then have n: "n = 2 ^ 24" using n_le by simp
    have "(2::real) powi ((e + 1) - 23) = 2 powi (1 + (e - 23))" by (simp add: algebra_simps)
    also have "\<dots> = 2 powi 1 * 2 powi (e - 23)" by (rule powi_shift [symmetric])
    finally have sh: "(2::real) powi ((e + 1) - 23) = 2 * 2 powi (e - 23)" by simp
    have "real_of_int n * 2 powi (e - 23) = real_of_int (2 ^ 23) * 2 powi ((e + 1) - 23)"
      unfolding n sh by simp
    then have "fround v = real_of_int (2 ^ 23) * 2 powi ((e + 1) - 23)"
      unfolding fr .
    moreover have "(0::int) \<le> 2 ^ 23" "(2::int) ^ 23 < 2 ^ 24" "- 126 \<le> e + 1"
      using e_ge by simp_all
    ultimately show ?thesis unfolding is_f32_def by blast
  qed
qed

text \<open>One evaporation of a single-precision value \<open>y\<close>: the product \<open>y * (994 / 1000)\<close> is rounded
  back. From 84 units of the subnormal range upwards the result is smaller; below, the
  product is less than half a unit away from \<open>y\<close> and rounds back to it.\<close>

lemma evaporate_strict:
  assumes "is_f32 y" "84 * 2 powi (- 149) \<le> y"
  shows "fround (y * (994 / 1000)) < y"
proof -
  from assms(1) obtain k e where k: "0 \<le> k" "k < 2 ^ 24" and e: "- 126 \<le> e"
    and y: "y = real_of_int k * 2 powi (e - 23)"
    unfolding is_f32_def by blast
  define v where "v = y * (994 / 1000)"
  define e' where "e' = f32_exponent v"
  define u where "u = (2::real) powi (e' - 23)"
  define N where "N = k * 2 ^ nat (e - e')"
  have u: "0 < u" unfolding u_def by simp
  have y0: "0 < y" using assms(2) by (smt (verit) zero_less_power_int mult_pos_pos)
  have v0: "0 \<le> v" and vy: "v \<le> y" using y0 unfolding v_def by simp_all
  have "v < 2 powi (e + 1)" using is_f32_lt_pow [OF k y] vy by simp
  then have le: "e' \<le> e" unfolding e'_def using e by (rule f32_exponent_le)
  have yu: "y / u = real_of_int N"
    unfolding y u_def N_def by (rule f32_multiple [OF le])
  have N84: "84 \<le> real_of_int N"
  proof (cases "e' = - 126")
    case True
    then have "u = 2 powi (- 149)" unfolding u_def by simp
    then have "84 * u \<le> y" using assms(2) by simp
    then show ?thesis unfolding yu [symmetric] using u by (simp add: pos_le_divide_eq)
  next
    case False
    then have "- 126 < e'" using f32_exponent_ge [of v] unfolding e'_def by simp
    then have "2 powi e' \<le> v" unfolding e'_def by (rule f32_exponent_lower)
    then have "2 powi e' \<le> y" using vy by simp
    then have "2 powi e' / u \<le> y / u" using u by (simp add: divide_right_mono)
    moreover have "2 powi e' / u = (2::real) ^ 23"
      unfolding u_def by (simp add: power_int_diff)
    ultimately show ?thesis unfolding yu by simp
  qed
  have "v / u = real_of_int N * (994 / 1000)"
    unfolding v_def yu [symmetric] by simp
  also have "\<dots> < real_of_int N - 1 / 2" using N84 by simp
  finally have "round_even (v / u) \<le> N - 1" by (rule round_even_below_half)
  then have "real_of_int (round_even (v / u)) \<le> real_of_int N - 1"
    by (metis of_int_le_iff of_int_diff of_int_1)
  then have "real_of_int (round_even (v / u)) < y / u" unfolding yu by simp
  then have "real_of_int (round_even (v / u)) * u < y"
    using u by (simp add: pos_less_divide_eq)
  moreover have "fround v = real_of_int (round_even (v / u)) * u"
    unfolding u_def e'_def by (rule fround_pos_eq [OF v0])
  ultimately have "fround v < y" by simp
  then show ?thesis unfolding v_def .
qed

lemma evaporate_fixed:
  assumes "is_f32 y" "y < 84 * 2 powi (- 149)"
  shows "fround (y * (994 / 1000)) = y"
proof -
  from assms(1) obtain k e where k: "0 \<le> k" "k < 2 ^ 24" and e: "- 126 \<le> e"
    and y: "y = real_of_int k * 2 powi (e - 23)"
    unfolding is_f32_def by blast
  define v where "v = y * (994 / 1000)"
  define u where "u = (2::real) powi (- 149)"
  define N where "N = k * 2 ^ nat (e - (- 126))"
  have u: "0 < u" unfolding u_def by simp
  have y0: "0 \<le> y" using assms(1) by (rule is_f32_nonneg)
  have v0: "0 \<le> v" and vy: "v \<le> y" using y0 unfolding v_def by simp_all
  have "(84::real) * 2 powi (- 149) < 2 powi (- 125)"
    by (simp add: power_int_minus field_simps)
  then have "v < 2 powi (- 125)" using vy assms(2) by simp
  then have e': "f32_exponent v = - 126" by (rule f32_exponent_tiny)
  have yu: "y / u = real_of_int N"
    unfolding y u_def N_def using f32_multiple [OF e, of k] by simp
  have "y / u < 84" using assms(2) u unfolding u_def by (simp add: pos_divide_less_eq)
  then have N84: "real_of_int N < 84" unfolding yu .
  have N0: "0 \<le> real_of_int N" unfolding yu [symmetric] using y0 u by simp
  have "v / u = real_of_int N * (994 / 1000)"
    unfolding v_def yu [symmetric] by simp
  then have "\<bar>v / u - real_of_int N\<bar> < 1 / 2" using N84 N0 by simp
  then have "round_even (v / u) = N" by (rule round_even_near)
  then have "real_of_int (round_even (v / u)) * u = y"
    using yu u by (simp add: field_simps)
  moreover have "fround v = real_of_int (round_even (v / u)) * u"
    using fround_pos_eq [OF v0] unfolding e' u_def by simp
  ultimately have "fround v = y" by simp
  then show ?thesis unfolding v_def .
qed

subsection \<open>What the blocks of a step leave alone\<close>

lemma pickUpFoodAt_frame:
  "snd (pickUpFoodAt w cx cy) = w\<lparr>foodPiles := snd (pickUp (foodPiles w) cx cy)\<rparr>"
  "fst (pickUpFoodAt w cx cy) = fst (pickUp (foodPiles w) cx cy)"
  by (simp_all add: pickUpFoodAt_def split: prod.splits)

lemma handleCollisions_frame:
  "ant_x (snd (handleCollisions wld a nx ny rB)) = ant_x a"
  "ant_y (snd (handleCollisions wld a nx ny rB)) = ant_y a"
  "hasFood (snd (handleCollisions wld a nx ny rB)) = hasFood a"
  by (simp_all add: handleCollisions_def Let_def split: prod.splits if_splits)

lemma turn_and_move_hasFood:
  "hasFood (snd (turn_and_move wld a turn sm rB)) = hasFood a"
proof -
  obtain b a2 where h: "handleCollisions wld (a\<lparr>angle := wrapAngle (angle a + turn)\<rparr>)
      (ant_x a + cos (wrapAngle (angle a + turn)) * (ANT_STEP_SPEED * (if sm = 0 then 1 else sm)))
      (ant_y a + sin (wrapAngle (angle a + turn)) * (ANT_STEP_SPEED * (if sm = 0 then 1 else sm))) rB = (b, a2)"
    by (cases "handleCollisions wld (a\<lparr>angle := wrapAngle (angle a + turn)\<rparr>)
      (ant_x a + cos (wrapAngle (angle a + turn)) * (ANT_STEP_SPEED * (if sm = 0 then 1 else sm)))
      (ant_y a + sin (wrapAngle (angle a + turn)) * (ANT_STEP_SPEED * (if sm = 0 then 1 else sm))) rB")
  have "hasFood a2 = hasFood a"
    using handleCollisions_frame(3) [of wld "a\<lparr>angle := wrapAngle (angle a + turn)\<rparr>"] h
    by (metis snd_conv ant.select_convs(4) ant.surjective ant.update_convs(3))
  then show ?thesis
    unfolding turn_and_move_def Let_def by (simp add: h)
qed

lemma deposit_frame:
  "gridWidth (deposit w a r) = gridWidth w"
  "gridHeight (deposit w a r) = gridHeight w"
  "obstacles (deposit w a r) = obstacles w"
  "foodPiles (deposit w a r) = foodPiles w"
  "ants (deposit w a r) = ants w"
  "nest (deposit w a r) = nest w"
  "score (deposit w a r) = score w"
  "ticks (deposit w a r) = ticks w"
  "tempToFood (deposit w a r) = tempToFood w"
  "flags (deposit w a r) = flags w"
  by (simp_all add: deposit_def Let_def)

lemma deposit_toFood:
  "toFood (deposit w a r) = toFood w \<or>
   (\<exists>i. toFood (deposit w a r) = (toFood w)[i := fround (min PHEROMONE_MAX (toFood w ! i + r))])"
  by (auto simp add: deposit_def Let_def)

lemma interact_frame:
  "gridWidth (fst (interact w a)) = gridWidth w"
  "gridHeight (fst (interact w a)) = gridHeight w"
  "toFood (fst (interact w a)) = toFood w"
  "obstacles (fst (interact w a)) = obstacles w"
  "ants (fst (interact w a)) = ants w"
  "nest (fst (interact w a)) = nest w"
  "ticks (fst (interact w a)) = ticks w"
  "tempToFood (fst (interact w a)) = tempToFood w"
  "flags (fst (interact w a)) = flags w"
  "ant_x (snd (interact w a)) = ant_x a"
  "ant_y (snd (interact w a)) = ant_y a"
  by (auto simp add: interact_def Let_def pickUpFoodAt_def deliverFood_def split: prod.splits)

lemma step_eq:
  "step w a sm rT rB =
     interact (deposit w (snd (turn_and_move w a (decide_turn w a (sense w a) rT) sm rB))
                 (if hasFood a then PHEROMONE_DEPOSIT_FOOD else PHEROMONE_DEPOSIT_HOME))
              (snd (turn_and_move w a (decide_turn w a (sense w a) rT) sm rB))"
  unfolding step_def Let_def by (simp add: split_beta)

lemma step_frame:
  "gridWidth (fst (step w a sm rT rB)) = gridWidth w"
  "gridHeight (fst (step w a sm rT rB)) = gridHeight w"
  "obstacles (fst (step w a sm rT rB)) = obstacles w"
  "ants (fst (step w a sm rT rB)) = ants w"
  "nest (fst (step w a sm rT rB)) = nest w"
  "ticks (fst (step w a sm rT rB)) = ticks w"
  "tempToFood (fst (step w a sm rT rB)) = tempToFood w"
  "flags (fst (step w a sm rT rB)) = flags w"
  unfolding step_eq by (simp_all only: interact_frame deposit_frame)

lemma step_toFood:
  "toFood (fst (step w a sm rT rB)) = toFood w \<or>
   (\<exists>i. toFood (fst (step w a sm rT rB))
          = (toFood w)[i := fround (min PHEROMONE_MAX (toFood w ! i + PHEROMONE_DEPOSIT_FOOD))])"
proof -
  let ?a' = "snd (turn_and_move w a (decide_turn w a (sense w a) rT) sm rB)"
  have hf: "hasFood ?a' = hasFood a" by (rule turn_and_move_hasFood)
  show ?thesis
  proof (cases "hasFood a")
    case True
    then show ?thesis
      unfolding step_eq interact_frame using deposit_toFood [of w ?a' PHEROMONE_DEPOSIT_FOOD] by simp
  next
    case False
    then show ?thesis
      unfolding step_eq interact_frame using hf by (simp add: deposit_def Let_def)
  qed
qed

lemma step_ant_frame:
  "gridWidth (step_ant w i sm rT rB) = gridWidth w"
  "gridHeight (step_ant w i sm rT rB) = gridHeight w"
  "obstacles (step_ant w i sm rT rB) = obstacles w"
  "nest (step_ant w i sm rT rB) = nest w"
  "ticks (step_ant w i sm rT rB) = ticks w"
  "tempToFood (step_ant w i sm rT rB) = tempToFood w"
  "flags (step_ant w i sm rT rB) = flags w"
  "toFood (step_ant w i sm rT rB) = toFood (fst (step w (ants w ! i) sm rT rB))"
  "ants (step_ant w i sm rT rB) = (ants w)[i := snd (step w (ants w ! i) sm rT rB)]"
  "foodPiles (step_ant w i sm rT rB) = foodPiles (fst (step w (ants w ! i) sm rT rB))"
  "score (step_ant w i sm rT rB) = score (fst (step w (ants w ! i) sm rT rB))"
  unfolding step_ant_def by (simp_all add: split_beta step_frame)

subsection \<open>Cells and indices\<close>

lemma indexOf_bounds:
  assumes "0 \<le> x" "x < gw" "0 \<le> y" "y < gh"
  shows "0 \<le> indexOf gw x y" "indexOf gw x y < gw * gh"
proof -
  have gw: "0 < gw" using assms by simp
  show "0 \<le> indexOf gw x y" unfolding indexOf_def using assms gw by simp
  have "y + 1 \<le> gh" using assms by simp
  then have "(y + 1) * gw \<le> gh * gw" using gw by (intro mult_right_mono) simp_all
  then show "indexOf gw x y < gw * gh"
    unfolding indexOf_def using assms by (simp add: algebra_simps)
qed

lemma indexOf_nat_less:
  assumes "0 \<le> x" "x < gw" "0 \<le> y" "y < gh"
  shows "nat (indexOf gw x y) < nat (gw * gh)"
  using indexOf_bounds [OF assms] by simp

lemma indexOf_inj:
  assumes "0 \<le> x" "x < gw" "0 \<le> x'" "x' < gw" "indexOf gw x y = indexOf gw x' y'"
  shows "x = x' \<and> y = y'"
proof -
  have "(y * gw + x) mod gw = x" "(y' * gw + x') mod gw = x'" using assms by simp_all
  then have x: "x = x'" using assms(5) unfolding indexOf_def by metis
  have "(y * gw + x) div gw = y" "(y' * gw + x') div gw = y'" using assms by simp_all
  then have "y = y'" using assms(5) unfolding indexOf_def by metis
  with x show ?thesis by simp
qed

lemma indexOf_nat_inj:
  assumes "0 \<le> x" "x < gw" "0 \<le> y" "0 \<le> x'" "x' < gw" "0 \<le> y'"
    and "nat (indexOf gw x y) = nat (indexOf gw x' y')"
  shows "x = x' \<and> y = y'"
proof -
  have "0 \<le> indexOf gw x y" "0 \<le> indexOf gw x' y'"
    unfolding indexOf_def using assms by simp_all
  then have "indexOf gw x y = indexOf gw x' y'" using assms(7) by simp
  then show ?thesis using assms indexOf_inj by blast
qed

subsection \<open>Loops that store into an array\<close>

lemma fold_invariant:
  "(\<And>k d. k \<in> set ks \<Longrightarrow> I d \<Longrightarrow> I (h k d)) \<Longrightarrow> I d \<Longrightarrow> I (fold h ks d)"
  by (induction ks arbitrary: d) simp_all

lemma fold_product:
  "fold (\<lambda>y. fold (h y) xs) ys d = fold (\<lambda>p. h (fst p) (snd p)) (List.product ys xs) d"
proof (induction ys arbitrary: d)
  case Nil
  then show ?case by simp
next
  case (Cons y ys)
  have "fold (\<lambda>p. h (fst p) (snd p)) (map (Pair y) xs) d = fold (h y) xs d"
    by (simp add: fold_map comp_def)
  then show ?case using Cons.IH by simp
qed

lemma fold_store_length:
  "length (fold (\<lambda>k d. d[f k := g k]) ks d) = length d"
  by (rule fold_invariant [where I = "\<lambda>d'. length d' = length d"]) simp_all

lemma fold_store_other:
  "\<forall>k \<in> set ks. f k \<noteq> j \<Longrightarrow> fold (\<lambda>k d. d[f k := g k]) ks d ! j = d ! j"
  by (rule fold_invariant [where I = "\<lambda>d'. d' ! j = d ! j"]) simp_all

lemma fold_store_nth:
  "k \<in> set ks \<Longrightarrow> inj_on f (set ks) \<Longrightarrow> f k < length d \<Longrightarrow>
   fold (\<lambda>k d. d[f k := g k]) ks d ! f k = g k"
proof (induction ks arbitrary: d)
  case Nil
  then show ?case by simp
next
  case (Cons a ks)
  have inj: "inj_on f (set ks)" using Cons.prems(2) by (simp add: inj_on_def)
  show ?case
  proof (cases "k \<in> set ks")
    case True
    have "f k < length (d[f a := g a])" using Cons.prems(3) by simp
    from Cons.IH [OF True inj this] show ?thesis by simp
  next
    case False
    then have ka: "k = a" using Cons.prems(1) by simp
    have "\<forall>k' \<in> set ks. f k' \<noteq> f a"
      using Cons.prems(2) False ka by (auto simp: inj_on_def)
    then have "fold (\<lambda>k d. d[f k := g k]) ks (d[f a := g a]) ! f a = d[f a := g a] ! f a"
      by (rule fold_store_other)
    then show ?thesis using ka Cons.prems(3) by simp
  qed
qed

lemma fold_store_set:
  "\<forall>k \<in> set ks. P (g k) \<Longrightarrow> \<forall>v \<in> set d. P v \<Longrightarrow>
   \<forall>v \<in> set (fold (\<lambda>k d. d[f k := g k]) ks d). P v"
proof (rule fold_invariant [where I = "\<lambda>d'. \<forall>v \<in> set d'. P v"])
  fix k d'
  assume "k \<in> set ks" "\<forall>v \<in> set d'. P v" "\<forall>k \<in> set ks. P (g k)"
  then show "\<forall>v \<in> set (d'[f k := g k]). P v"
    using set_update_subset_insert [of d' "f k" "g k"] by auto
qed

subsection \<open>The field advance, cell by cell\<close>

lemma diffuse_as_fold:
  "diffuseAndEvaporate wld =
     (let dstF = fold (\<lambda>p dst. dst[nat (indexOf (gridWidth wld) (snd p) (fst p))
                                    := advance_cell wld (snd p) (fst p)])
                      (grid_cells wld) (tempToFood wld)
      in wld\<lparr>tempToFood := dstF, toFood := dstF\<rparr>)"
  unfolding diffuseAndEvaporate_def grid_cells_def Let_def
  by (simp add: fold_product [where h = "\<lambda>y x dst. dst[nat (indexOf (gridWidth wld) x y) := advance_cell wld x y]"])

lemma grid_cells_set:
  "set (grid_cells wld) = {(y, x). in_grid wld x y}"
  unfolding grid_cells_def in_grid_def by auto

lemma diffuse_length:
  "length (toFood (diffuseAndEvaporate wld)) = length (tempToFood wld)"
  "length (tempToFood (diffuseAndEvaporate wld)) = length (tempToFood wld)"
  unfolding diffuse_as_fold Let_def by (simp_all add: fold_store_length)

lemma diffuse_tempToFood: "tempToFood (diffuseAndEvaporate wld) = toFood (diffuseAndEvaporate wld)"
  unfolding diffuseAndEvaporate_def Let_def by simp

lemma diffuse_cell:
  assumes "grid_ok wld" "in_grid wld x y"
  shows "toFood (diffuseAndEvaporate wld) ! nat (indexOf (gridWidth wld) x y) = advance_cell wld x y"
proof -
  let ?f = "\<lambda>p. nat (indexOf (gridWidth wld) (snd p) (fst p))"
  let ?g = "\<lambda>p. advance_cell wld (snd p) (fst p)"
  have mem: "(y, x) \<in> set (grid_cells wld)" using assms(2) by (simp add: grid_cells_set)
  have inj: "inj_on ?f (set (grid_cells wld))"
    unfolding inj_on_def grid_cells_set in_grid_def
    using indexOf_nat_inj by (auto simp: split_beta; blast)
  have len: "?f (y, x) < length (tempToFood wld)"
    using assms indexOf_nat_less [of x "gridWidth wld" y "gridHeight wld"]
    unfolding grid_ok_def in_grid_def by simp
  have "fold (\<lambda>p dst. dst[?f p := ?g p]) (grid_cells wld) (tempToFood wld) ! ?f (y, x) = ?g (y, x)"
    using mem inj len by (rule fold_store_nth)
  then show ?thesis unfolding diffuse_as_fold Let_def by simp
qed

subsection \<open>The grid of a reachable world\<close>

lemma GRID_dims:
  "40 \<le> GRID_WIDTH isMobile innerWidth" "40 \<le> GRID_HEIGHT isMobile innerWidth"
  unfolding GRID_WIDTH_def GRID_HEIGHT_def computeCanvasSize_def CELL_SIZE_def Let_def
  by (simp_all, linarith+)

lemma new_World_grid_ok: "2 \<le> gw \<Longrightarrow> 2 \<le> gh \<Longrightarrow> grid_ok (new_World gw gh)"
  unfolding grid_ok_def new_World_def by simp

lemma diffuse_frame:
  "gridWidth (diffuseAndEvaporate w) = gridWidth w"
  "gridHeight (diffuseAndEvaporate w) = gridHeight w"
  "obstacles (diffuseAndEvaporate w) = obstacles w"
  "foodPiles (diffuseAndEvaporate w) = foodPiles w"
  "ants (diffuseAndEvaporate w) = ants w"
  "nest (diffuseAndEvaporate w) = nest w"
  "score (diffuseAndEvaporate w) = score w"
  "ticks (diffuseAndEvaporate w) = ticks w"
  "flags (diffuseAndEvaporate w) = flags w"
  unfolding diffuseAndEvaporate_def Let_def by simp_all

lemma addFood_frame:
  "gridWidth (addFood w cx cy a) = gridWidth w"
  "gridHeight (addFood w cx cy a) = gridHeight w"
  "toFood (addFood w cx cy a) = toFood w"
  "tempToFood (addFood w cx cy a) = tempToFood w"
  "obstacles (addFood w cx cy a) = obstacles w"
  "ants (addFood w cx cy a) = ants w"
  "nest (addFood w cx cy a) = nest w"
  "score (addFood w cx cy a) = score w"
  "ticks (addFood w cx cy a) = ticks w"
  unfolding addFood_def by (simp_all split: option.splits)

lemma setWall_frame:
  "gridWidth (setWall w cx cy b r) = gridWidth w"
  "gridHeight (setWall w cx cy b r) = gridHeight w"
  "toFood (setWall w cx cy b r) = toFood w"
  "tempToFood (setWall w cx cy b r) = tempToFood w"
  "foodPiles (setWall w cx cy b r) = foodPiles w"
  "ants (setWall w cx cy b r) = ants w"
  "nest (setWall w cx cy b r) = nest w"
  "score (setWall w cx cy b r) = score w"
  "ticks (setWall w cx cy b r) = ticks w"
  unfolding setWall_def by simp_all

lemma setWall_cell_length: "length (setWall_cell w cx cy b r y x obs) = length obs"
  unfolding setWall_cell_def by simp

lemma setWall_length: "length (obstacles (setWall w cx cy b r)) = length (obstacles w)"
proof -
  have inner: "length (fold (setWall_cell w cx cy b r y) xs obs) = length obs" for y xs obs
    by (rule fold_invariant [where I = "\<lambda>d. length d = length obs"])
       (simp_all add: setWall_cell_length)
  have "length (fold (\<lambda>y. fold (setWall_cell w cx cy b r y) [cx - r .. cx + r])
                     [cy - r .. cy + r] (obstacles w)) = length (obstacles w)"
    by (rule fold_invariant [where I = "\<lambda>d. length d = length (obstacles w)"])
       (simp_all add: inner)
  then show ?thesis unfolding setWall_def by simp
qed

lemma setAntCount_frame:
  "gridWidth (setAntCount w n rnd) = gridWidth w"
  "gridHeight (setAntCount w n rnd) = gridHeight w"
  "toFood (setAntCount w n rnd) = toFood w"
  "tempToFood (setAntCount w n rnd) = tempToFood w"
  "obstacles (setAntCount w n rnd) = obstacles w"
  "foodPiles (setAntCount w n rnd) = foodPiles w"
  "nest (setAntCount w n rnd) = nest w"
  "score (setAntCount w n rnd) = score w"
  "ticks (setAntCount w n rnd) = ticks w"
  unfolding setAntCount_def Let_def by simp_all

lemma reset_frame:
  "gridWidth (reset w n rnd) = gridWidth w"
  "gridHeight (reset w n rnd) = gridHeight w"
  "tempToFood (reset w n rnd) = tempToFood w"
  "nest (reset w n rnd) = nest w"
  "toFood (reset w n rnd) = map (\<lambda>_. 0) (toFood w)"
  "obstacles (reset w n rnd) = map (\<lambda>_. 0) (obstacles w)"
  "score (reset w n rnd) = 0"
  unfolding reset_def by simp_all

lemma step_toFood_length: "length (toFood (fst (step w a sm rT rB))) = length (toFood w)"
  using step_toFood [of w a sm rT rB] by auto

lemma grid_ok_action: "grid_ok w \<Longrightarrow> grid_ok (apply_action w a)"
proof (cases a)
  case (Step i sm rT rB)
  then show "grid_ok w \<Longrightarrow> grid_ok (apply_action w a)"
    unfolding grid_ok_def by (simp add: step_ant_frame step_toFood_length)
next
  case Advance
  then show "grid_ok w \<Longrightarrow> grid_ok (apply_action w a)"
    unfolding grid_ok_def by (simp add: diffuse_frame diffuse_length)
next
  case CountTick
  then show "grid_ok w \<Longrightarrow> grid_ok (apply_action w a)"
    unfolding grid_ok_def by simp
next
  case (AddFood cx cy n)
  then show "grid_ok w \<Longrightarrow> grid_ok (apply_action w a)"
    unfolding grid_ok_def by (simp add: addFood_frame)
next
  case (SetWall cx cy b r)
  then show "grid_ok w \<Longrightarrow> grid_ok (apply_action w a)"
    unfolding grid_ok_def by (simp add: setWall_frame setWall_length)
next
  case (SetAntCount n rnd)
  then show "grid_ok w \<Longrightarrow> grid_ok (apply_action w a)"
    unfolding grid_ok_def by (simp add: setAntCount_frame)
next
  case (Reset n rnd)
  then show "grid_ok w \<Longrightarrow> grid_ok (apply_action w a)"
    unfolding grid_ok_def by (simp add: reset_frame)
qed

lemma reachable_grid_ok: "reachable w \<Longrightarrow> grid_ok w"
proof (induction rule: reachable.induct)
  case (start rnd isMobile innerWidth antCount)
  have "grid_ok (new_World (GRID_WIDTH isMobile innerWidth) (GRID_HEIGHT isMobile innerWidth))"
    using GRID_dims [of isMobile innerWidth] by (intro new_World_grid_ok) simp_all
  then show ?case using grid_ok_action [where a = "Reset antCount rnd"] by simp
next
  case (act wld a)
  then show ?case by (simp add: grid_ok_action)
qed

subsection \<open>Ticks\<close>

text \<open>A pass of the main loop is a sequence of actions: a step of every ant, the advance of
  the field, the count of the tick. What holds in every reachable world holds after every
  sequence of ticks.\<close>

lemma reachable_steps:
  assumes "reachable w" "\<forall>i \<in> set js. i < length (ants w)"
    and "\<forall>i. is_draw (fst (draws i)) \<and> is_draw (snd (draws i))"
  shows "reachable (fold (\<lambda>i w. step_ant w i sm (fst (draws i)) (snd (draws i))) js w)"
  using assms(1,2)
proof (induction js arbitrary: w)
  case Nil
  then show ?case by simp
next
  case (Cons j js)
  have "action_ok w (Step j sm (fst (draws j)) (snd (draws j)))"
    using Cons.prems(2) assms(3) by simp
  then have r: "reachable (step_ant w j sm (fst (draws j)) (snd (draws j)))"
    using reachable.act [OF Cons.prems(1)] by fastforce
  have "length (ants (step_ant w j sm (fst (draws j)) (snd (draws j)))) = length (ants w)"
    by (simp add: step_ant_frame)
  then have "\<forall>i \<in> set js. i < length (ants (step_ant w j sm (fst (draws j)) (snd (draws j))))"
    using Cons.prems(2) by simp
  from Cons.IH [OF r this] show ?case by simp
qed

lemma reachable_tick:
  assumes "reachable w" "\<forall>i. is_draw (fst (draws i)) \<and> is_draw (snd (draws i))"
  shows "reachable (tick w sm draws)"
proof -
  let ?w1 = "fold (\<lambda>i w. step_ant w i sm (fst (draws i)) (snd (draws i))) [0 ..< length (ants w)] w"
  have "reachable ?w1" using assms by (intro reachable_steps) simp_all
  then have "reachable (apply_action ?w1 Advance)" by (rule reachable.act) simp
  then have "reachable (apply_action (apply_action ?w1 Advance) CountTick)"
    by (rule reachable.act) simp
  then show ?thesis unfolding tick_def Let_def by simp
qed

subsection \<open>The scent field stays within its bounds\<close>

lemma is_f32_5: "is_f32 5"
  unfolding is_f32_def
  by (rule exI [of _ 10485760], rule exI [of _ 2]) (simp add: power_int_minus)

lemma field_ok_update:
  "field_ok xs \<Longrightarrow> is_f32 v \<Longrightarrow> v \<le> PHEROMONE_MAX \<Longrightarrow> field_ok (xs[i := v])"
  unfolding field_ok_def using set_update_subset_insert [of xs i v] by auto

lemma field_ok_nth: "field_ok xs \<Longrightarrow> i < length xs \<Longrightarrow> is_f32 (xs ! i) \<and> xs ! i \<le> PHEROMONE_MAX"
  unfolding field_ok_def by simp

lemma field_ok_zeros: "field_ok (map (\<lambda>_. 0) xs)" "field_ok (replicate n 0)"
  unfolding field_ok_def PHEROMONE_MAX_def by (auto simp: is_f32_0)

lemma small_lt_pow127: "v \<le> 5 \<Longrightarrow> v < 2 powi 127" for v :: real
proof -
  have "(5::real) < 2 ^ 127" by simp
  then have "(5::real) < 2 powi 127" by (simp only: power_int_numeral)
  then show "v \<le> 5 \<Longrightarrow> v < 2 powi 127" by simp
qed

lemma stored_ok:
  assumes "0 \<le> v" "v \<le> 5"
  shows "is_f32 (fround v) \<and> fround v \<le> PHEROMONE_MAX"
  using fround_is_f32 [OF assms(1) small_lt_pow127 [OF assms(2)]]
        fround_le [OF is_f32_5 assms]
  by (simp add: PHEROMONE_MAX_def)

lemma deposit_ok:
  assumes "field_ok xs" "0 \<le> r"
  shows "field_ok (xs[i := fround (min PHEROMONE_MAX (xs ! i + r))])"
proof (cases "i < length xs")
  case True
  then have "0 \<le> xs ! i" using field_ok_nth [OF assms(1)] is_f32_nonneg by blast
  then have "0 \<le> min PHEROMONE_MAX (xs ! i + r)" "min PHEROMONE_MAX (xs ! i + r) \<le> 5"
    using assms(2) by (simp_all add: PHEROMONE_MAX_def)
  then show ?thesis using stored_ok field_ok_update [OF assms(1)] by blast
next
  case False
  then have "xs[i := fround (min PHEROMONE_MAX (xs ! i + r))] = xs"
    by (intro list_update_beyond) simp
  then show ?thesis using assms(1) by simp
qed

lemma advance_cell_eq:
  "advance_cell wld x y
     = fround (max 0 (toFood wld ! nat (indexOf (gridWidth wld) x y) * (994 / 1000)))"
  unfolding advance_cell_def Let_def DIFFUSION_WEIGHT_def EVAPORATION_def by simp

lemma advance_cell_ok:
  assumes "grid_ok wld" "field_ok (toFood wld)" "in_grid wld x y"
  shows "is_f32 (advance_cell wld x y) \<and> advance_cell wld x y \<le> PHEROMONE_MAX"
proof -
  let ?c = "toFood wld ! nat (indexOf (gridWidth wld) x y)"
  have "nat (indexOf (gridWidth wld) x y) < length (toFood wld)"
    using assms(1,3) indexOf_nat_less [of x "gridWidth wld" y "gridHeight wld"]
    unfolding grid_ok_def in_grid_def by simp
  then have c: "is_f32 ?c" "?c \<le> 5"
    using field_ok_nth [OF assms(2)] by (simp_all add: PHEROMONE_MAX_def)
  then have "0 \<le> ?c" using is_f32_nonneg by blast
  then have "0 \<le> max 0 (?c * (994 / 1000))" "max 0 (?c * (994 / 1000)) \<le> 5"
    using c(2) by simp_all
  then show ?thesis unfolding advance_cell_eq by (rule stored_ok)
qed

lemma diffuse_field_ok:
  assumes "grid_ok wld" "field_ok (toFood wld)" "field_ok (tempToFood wld)"
  shows "field_ok (toFood (diffuseAndEvaporate wld))"
proof -
  let ?P = "\<lambda>v. is_f32 v \<and> v \<le> PHEROMONE_MAX"
  have "\<forall>p \<in> set (grid_cells wld). ?P (advance_cell wld (snd p) (fst p))"
    using advance_cell_ok [OF assms(1,2)] by (auto simp: grid_cells_set)
  moreover have "\<forall>v \<in> set (tempToFood wld). ?P v"
    using assms(3) unfolding field_ok_def .
  ultimately have "\<forall>v \<in> set (fold (\<lambda>p dst. dst[nat (indexOf (gridWidth wld) (snd p) (fst p))
        := advance_cell wld (snd p) (fst p)]) (grid_cells wld) (tempToFood wld)). ?P v"
    by (rule fold_store_set)
  then show ?thesis unfolding diffuse_as_fold Let_def field_ok_def by simp
qed

lemma step_field_ok:
  assumes "field_ok (toFood w)"
  shows "field_ok (toFood (fst (step w a sm rT rB)))"
  using step_toFood [of w a sm rT rB] deposit_ok [OF assms, of PHEROMONE_DEPOSIT_FOOD] assms
  by (auto simp: PHEROMONE_DEPOSIT_FOOD_def)

lemma fields_ok_action:
  assumes "grid_ok w" "fields_ok w"
  shows "fields_ok (apply_action w a)"
proof (cases a)
  case (Step i sm rT rB)
  then show ?thesis
    using assms(2) unfolding fields_ok_def by (simp add: step_ant_frame step_field_ok)
next
  case Advance
  then show ?thesis
    using assms diffuse_field_ok [of w] unfolding fields_ok_def by (simp add: diffuse_tempToFood)
next
  case CountTick
  then show ?thesis using assms(2) unfolding fields_ok_def by simp
next
  case (AddFood cx cy n)
  then show ?thesis using assms(2) unfolding fields_ok_def by (simp add: addFood_frame)
next
  case (SetWall cx cy b r)
  then show ?thesis using assms(2) unfolding fields_ok_def by (simp add: setWall_frame)
next
  case (SetAntCount n rnd)
  then show ?thesis using assms(2) unfolding fields_ok_def by (simp add: setAntCount_frame)
next
  case (Reset n rnd)
  then show ?thesis
    using assms(2) unfolding fields_ok_def by (simp add: reset_frame field_ok_zeros)
qed

lemma reachable_fields_ok: "reachable w \<Longrightarrow> fields_ok w"
proof (induction rule: reachable.induct)
  case (start rnd isMobile innerWidth antCount)
  show ?case
    unfolding fields_ok_def by (simp add: reset_frame field_ok_zeros new_World_def)
next
  case (act wld a)
  then show ?case using reachable_grid_ok fields_ok_action by blast
qed

text \<open>
  Claim C1. In every reachable world every cell of the scent field lies between 0 and
  \<^verbatim>\<open>PHEROMONE_MAX\<close>.
\<close>

theorem field_bounds:
  assumes "reachable w" "i < length (toFood w)"
  shows "0 \<le> toFood w ! i \<and> toFood w ! i \<le> PHEROMONE_MAX"
proof -
  have "field_ok (toFood w)"
    using reachable_fields_ok [OF assms(1)] unfolding fields_ok_def by simp
  then have "is_f32 (toFood w ! i)" "toFood w ! i \<le> PHEROMONE_MAX"
    using field_ok_nth assms(2) by blast+
  then show ?thesis using is_f32_nonneg by blast
qed

subsection \<open>Decay of a cell\<close>

lemma fround_pos:
  assumes "2 powi (- 149) \<le> v"
  shows "0 < fround v"
proof -
  define e where "e = f32_exponent v"
  define u where "u = (2::real) powi (e - 23)"
  have u: "0 < u" unfolding u_def by simp
  have v0: "0 \<le> v" using assms by (smt (verit) zero_less_power_int)
  have fr: "fround v = real_of_int (round_even (v / u)) * u"
    unfolding u_def e_def by (rule fround_pos_eq [OF v0])
  have "real_of_int 1 \<le> v / u"
  proof (cases "e = - 126")
    case True
    then have "u = 2 powi (- 149)" unfolding u_def by simp
    then show ?thesis using assms u by (simp add: pos_le_divide_eq)
  next
    case False
    then have "- 126 < e" using f32_exponent_ge [of v] unfolding e_def by simp
    then have "2 powi e \<le> v" unfolding e_def by (rule f32_exponent_lower)
    then have "2 powi e / u \<le> v / u" using u by (simp add: divide_right_mono)
    moreover have "2 powi e / u = (2::real) ^ 23"
      unfolding u_def by (simp add: power_int_diff)
    ultimately show ?thesis by simp
  qed
  then have "1 \<le> round_even (v / u)" by (rule round_even_ge)
  then have "0 < real_of_int (round_even (v / u))" by simp
  then show ?thesis unfolding fr using u by simp
qed

lemma evaporate_pos:
  assumes "is_f32 y" "0 < y"
  shows "0 < fround (y * (994 / 1000))"
proof (cases "y < 84 * 2 powi (- 149)")
  case True
  then show ?thesis using evaporate_fixed [OF assms(1)] assms(2) by simp
next
  case False
  then have "84 * 2 powi (- 149) \<le> y" by simp
  then have "84 * 2 powi (- 149) * (994 / 1000) \<le> y * (994 / 1000)" by simp
  moreover have "(2::real) powi (- 149) \<le> 84 * 2 powi (- 149) * (994 / 1000)"
    by simp
  ultimately have "2 powi (- 149) \<le> y * (994 / 1000)" by linarith
  then show ?thesis by (rule fround_pos)
qed

lemma advance_once:
  assumes "grid_ok w" "field_ok (toFood w)" "in_grid w x y"
  shows "is_f32 (toFood w ! nat (indexOf (gridWidth w) x y))"
    and "toFood (diffuseAndEvaporate w) ! nat (indexOf (gridWidth w) x y)
           = fround (toFood w ! nat (indexOf (gridWidth w) x y) * (994 / 1000))"
proof -
  let ?c = "toFood w ! nat (indexOf (gridWidth w) x y)"
  have "nat (indexOf (gridWidth w) x y) < length (toFood w)"
    using assms(1,3) indexOf_nat_less [of x "gridWidth w" y "gridHeight w"]
    unfolding grid_ok_def in_grid_def by simp
  then show c: "is_f32 ?c" using field_ok_nth [OF assms(2)] by simp
  then have "0 \<le> ?c" by (rule is_f32_nonneg)
  then have "max 0 (?c * (994 / 1000)) = ?c * (994 / 1000)" by simp
  then show "toFood (diffuseAndEvaporate w) ! nat (indexOf (gridWidth w) x y)
           = fround (?c * (994 / 1000))"
    using diffuse_cell [OF assms(1,3)] advance_cell_eq [of w x y] by simp
qed

lemma advances_inv:
  assumes "grid_ok w" "fields_ok w"
  shows "grid_ok ((diffuseAndEvaporate ^^ n) w) \<and> fields_ok ((diffuseAndEvaporate ^^ n) w)
         \<and> gridWidth ((diffuseAndEvaporate ^^ n) w) = gridWidth w
         \<and> gridHeight ((diffuseAndEvaporate ^^ n) w) = gridHeight w"
proof (induction n)
  case 0
  then show ?case using assms by simp
next
  case (Suc n)
  then show ?case
    using grid_ok_action [of "(diffuseAndEvaporate ^^ n) w" Advance]
          fields_ok_action [of "(diffuseAndEvaporate ^^ n) w" Advance]
    by (simp add: diffuse_frame)
qed

lemma cell_after_Suc:
  assumes "grid_ok w" "fields_ok w" "in_grid w x y"
  shows "is_f32 (cell_after w x y n)"
    and "cell_after w x y (Suc n) = fround (cell_after w x y n * (994 / 1000))"
proof -
  let ?wn = "(diffuseAndEvaporate ^^ n) w"
  have inv: "grid_ok ?wn" "field_ok (toFood ?wn)" "gridWidth ?wn = gridWidth w" "in_grid ?wn x y"
    using advances_inv [OF assms(1,2), of n] assms(3) unfolding fields_ok_def in_grid_def by simp_all
  from advance_once [OF inv(1,2,4)]
  show "is_f32 (cell_after w x y n)"
    and "cell_after w x y (Suc n) = fround (cell_after w x y n * (994 / 1000))"
    unfolding cell_after_def inv(3) by simp_all
qed

lemma cell_after_fixed:
  assumes "grid_ok w" "fields_ok w" "in_grid w x y" "cell_after w x y n < 84 * 2 powi (- 149)"
  shows "cell_after w x y (n + m) = cell_after w x y n"
proof (induction m)
  case 0
  then show ?case by simp
next
  case (Suc m)
  have "cell_after w x y (Suc (n + m)) = fround (cell_after w x y (n + m) * (994 / 1000))"
    by (rule cell_after_Suc(2) [OF assms(1-3)])
  also have "\<dots> = fround (cell_after w x y n * (994 / 1000))" using Suc by simp
  also have "\<dots> = cell_after w x y n"
    using cell_after_Suc(1) [OF assms(1-3)] assms(4) by (rule evaporate_fixed)
  finally show ?case by simp
qed

lemma cell_after_pos:
  assumes "grid_ok w" "fields_ok w" "in_grid w x y"
  shows "0 < cell_after w x y n \<longleftrightarrow> 0 < cell_after w x y 0"
proof (induction n)
  case 0
  then show ?case by simp
next
  case (Suc n)
  have f: "is_f32 (cell_after w x y n)" by (rule cell_after_Suc(1) [OF assms])
  have s: "cell_after w x y (Suc n) = fround (cell_after w x y n * (994 / 1000))"
    by (rule cell_after_Suc(2) [OF assms])
  have "0 < cell_after w x y (Suc n) \<longleftrightarrow> 0 < cell_after w x y n"
  proof (cases "0 < cell_after w x y n")
    case True
    then show ?thesis using evaporate_pos [OF f] s by simp
  next
    case False
    then have "cell_after w x y n = 0" using is_f32_nonneg [OF f] by simp
    then show ?thesis using s by (simp add: fround_0)
  qed
  then show ?case using Suc by simp
qed

text \<open>
  Claim C4, as the code has it, in a world whose arrays have the size of its grid and whose
  field holds single-precision values of at most \<^verbatim>\<open>PHEROMONE_MAX\<close>, as every reachable
  world is. With no deposit in between, an advance never increases a
  cell, and it makes the cell strictly smaller exactly when the cell holds at least
  \<open>84 * 2 powi - 149\<close>; a smaller value, zero included, stays what it is under every further
  advance. So a cell is positive after any number of advances exactly when it was positive
  before them: a positive cell does not reach 0.
\<close>

theorem decay_of_a_cell:
  assumes "grid_ok w" "fields_ok w" "in_grid w x y"
  shows "cell_after w x y (Suc n) \<le> cell_after w x y n
     \<and> (cell_after w x y (Suc n) < cell_after w x y n \<longleftrightarrow> 84 * 2 powi (- 149) \<le> cell_after w x y n)
     \<and> (cell_after w x y n < 84 * 2 powi (- 149) \<longrightarrow> cell_after w x y (n + m) = cell_after w x y n)
     \<and> (0 < cell_after w x y n \<longleftrightarrow> 0 < cell_after w x y 0)"
proof -
  have f: "is_f32 (cell_after w x y n)" by (rule cell_after_Suc(1) [OF assms])
  have s: "cell_after w x y (Suc n) = fround (cell_after w x y n * (994 / 1000))"
    by (rule cell_after_Suc(2) [OF assms])
  have strict: "cell_after w x y (Suc n) < cell_after w x y n"
    if "84 * 2 powi (- 149) \<le> cell_after w x y n"
    unfolding s using f that by (rule evaporate_strict)
  have fixed: "cell_after w x y (Suc n) = cell_after w x y n"
    if "cell_after w x y n < 84 * 2 powi (- 149)"
    unfolding s using f that by (rule evaporate_fixed)
  have le: "cell_after w x y (Suc n) \<le> cell_after w x y n"
    using strict fixed by (cases "84 * 2 powi (- 149) \<le> cell_after w x y n") simp_all
  have iff: "cell_after w x y (Suc n) < cell_after w x y n \<longleftrightarrow> 84 * 2 powi (- 149) \<le> cell_after w x y n"
    using strict fixed by (cases "84 * 2 powi (- 149) \<le> cell_after w x y n") simp_all
  show ?thesis
    using le iff cell_after_fixed [OF assms] cell_after_pos [OF assms] by blast
qed

lemma is_f32_1: "is_f32 1"
  unfolding is_f32_def
  by (rule exI [of _ 8388608], rule exI [of _ 0]) (simp add: power_int_minus)

lemma is_f32_stuck: "is_f32 (83 * 2 powi (- 149))"
  unfolding is_f32_def
  by (rule exI [of _ 83], rule exI [of _ "- 126"]) simp

lemma example_world_ok:
  assumes "is_f32 v" "v \<le> 5"
  shows "grid_ok ((new_World 40 40)\<lparr>toFood := (toFood (new_World 40 40))[0 := v]\<rparr>)"
    and "fields_ok ((new_World 40 40)\<lparr>toFood := (toFood (new_World 40 40))[0 := v]\<rparr>)"
    and "in_grid ((new_World 40 40)\<lparr>toFood := (toFood (new_World 40 40))[0 := v]\<rparr>) 0 0"
    and "in_grid ((new_World 40 40)\<lparr>toFood := (toFood (new_World 40 40))[0 := v]\<rparr>) 1 0"
    and "cell_after ((new_World 40 40)\<lparr>toFood := (toFood (new_World 40 40))[0 := v]\<rparr>) 0 0 0 = v"
    and "cell_after ((new_World 40 40)\<lparr>toFood := (toFood (new_World 40 40))[0 := v]\<rparr>) 1 0 0 = 0"
proof -
  show "grid_ok ((new_World 40 40)\<lparr>toFood := (toFood (new_World 40 40))[0 := v]\<rparr>)"
    unfolding grid_ok_def new_World_def by simp
  have "field_ok ((replicate 1600 0)[0 := v])"
    using field_ok_zeros(2) assms by (intro field_ok_update) (simp_all add: PHEROMONE_MAX_def)
  then show "fields_ok ((new_World 40 40)\<lparr>toFood := (toFood (new_World 40 40))[0 := v]\<rparr>)"
    unfolding fields_ok_def new_World_def using field_ok_zeros(2) [of 1600] by simp
  show "in_grid ((new_World 40 40)\<lparr>toFood := (toFood (new_World 40 40))[0 := v]\<rparr>) 0 0"
    and "in_grid ((new_World 40 40)\<lparr>toFood := (toFood (new_World 40 40))[0 := v]\<rparr>) 1 0"
    unfolding in_grid_def new_World_def by simp_all
  show "cell_after ((new_World 40 40)\<lparr>toFood := (toFood (new_World 40 40))[0 := v]\<rparr>) 0 0 0 = v"
    and "cell_after ((new_World 40 40)\<lparr>toFood := (toFood (new_World 40 40))[0 := v]\<rparr>) 1 0 0 = 0"
    unfolding cell_after_def new_World_def indexOf_def by simp_all
qed

theorem decay_of_a_cell_witness:
  "(let w = (new_World 40 40)\<lparr>toFood := (toFood (new_World 40 40))[0 := 1]\<rparr>
    in cell_after w 0 0 1 < cell_after w 0 0 0 \<and> 0 < cell_after w 0 0 1
       \<and> cell_after w 1 0 5 = cell_after w 1 0 0)"
proof -
  let ?w = "(new_World 40 40)\<lparr>toFood := (toFood (new_World 40 40))[0 := 1]\<rparr>"
  note ok = example_world_ok [OF is_f32_1, simplified]
  have big: "84 * 2 powi (- 149) \<le> cell_after ?w 0 0 0"
    unfolding ok(5) by (simp add: power_int_minus)
  have small: "cell_after ?w 1 0 0 < 84 * 2 powi (- 149)"
    unfolding ok(6) by simp
  have pos: "0 < cell_after ?w 0 0 0" unfolding ok(5) by simp
  from decay_of_a_cell [OF ok(1,2,3), of 0 0] big
  have a: "cell_after ?w 0 0 1 < cell_after ?w 0 0 0" by simp
  from decay_of_a_cell [OF ok(1,2,3), of 1 0] pos
  have b: "0 < cell_after ?w 0 0 1" by simp
  from decay_of_a_cell [OF ok(1,2,4), of 0 5] small
  have c: "cell_after ?w 1 0 5 = cell_after ?w 1 0 0" by simp
  show ?thesis unfolding Let_def using a b c by simp
qed

text \<open>
  The claim as the specification states it fails on a cell that holds 83 units of the
  subnormal range, \<open>83 * 2 powi - 149\<close>: the advance stores the same value back, and it is
  still there after a million advances.
\<close>

theorem decay_counterexample:
  "(let w = (new_World 40 40)\<lparr>toFood := (toFood (new_World 40 40))[0 := 83 * 2 powi (- 149)]\<rparr>
    in 0 < cell_after w 0 0 0
       \<and> cell_after w 0 0 1 = cell_after w 0 0 0
       \<and> cell_after w 0 0 1000000 = cell_after w 0 0 0)"
proof -
  let ?w = "(new_World 40 40)\<lparr>toFood := (toFood (new_World 40 40))[0 := 83 * 2 powi (- 149)]\<rparr>"
  have le5: "83 * 2 powi (- 149) \<le> (5::real)" by (simp add: power_int_minus)
  note ok = example_world_ok [OF is_f32_stuck le5]
  have small: "cell_after ?w 0 0 0 < 84 * 2 powi (- 149)"
    unfolding ok(5) by simp
  have pos: "0 < cell_after ?w 0 0 0" unfolding ok(5) by simp
  have a: "cell_after ?w 0 0 (0 + 1) = cell_after ?w 0 0 0"
    using ok(1,2,3) small by (rule cell_after_fixed)
  have b: "cell_after ?w 0 0 (0 + 1000000) = cell_after ?w 0 0 0"
    using ok(1,2,3) small by (rule cell_after_fixed)
  show ?thesis unfolding Let_def using pos a b by simp
qed

subsection \<open>The field advance touches the field only\<close>

text \<open>
  Claim C10. \<^verbatim>\<open>diffuseAndEvaporate\<close> changes the scent field and its scratch buffer and
  nothing else: the obstacle mask, the food piles, the ants, the nest, the score and the
  tick counter are the same before and after the call.
\<close>

theorem diffuseAndEvaporate_frame:
  "diffuseAndEvaporate w
     = w\<lparr>tempToFood := tempToFood (diffuseAndEvaporate w), toFood := toFood (diffuseAndEvaporate w)\<rparr>
   \<and> obstacles (diffuseAndEvaporate w) = obstacles w
   \<and> foodPiles (diffuseAndEvaporate w) = foodPiles w
   \<and> ants (diffuseAndEvaporate w) = ants w
   \<and> nest (diffuseAndEvaporate w) = nest w
   \<and> score (diffuseAndEvaporate w) = score w
   \<and> ticks (diffuseAndEvaporate w) = ticks w"
  unfolding diffuseAndEvaporate_def Let_def by simp

subsection \<open>The no-build zone around the nest\<close>

lemma setWall_cell_protected:
  assumes "in_grid w x y" "near_nest w x y"
  shows "setWall_cell w cx cy b r y' x' obs ! nat (indexOf (gridWidth w) x y)
           = obs ! nat (indexOf (gridWidth w) x y)"
proof (cases "setWall_cell w cx cy b r y' x' obs = obs")
  case True
  then show ?thesis by simp
next
  case False
  then have g: "0 \<le> x'" "x' < gridWidth w" "0 \<le> y'" "y' < gridHeight w"
    and far: "\<not> near_nest w x' y'"
    and eq: "setWall_cell w cx cy b r y' x' obs
               = obs[nat (indexOf (gridWidth w) x' y') := (if b then 1 else 0)]"
    unfolding setWall_cell_def near_nest_def by (auto split: if_splits)
  have "nat (indexOf (gridWidth w) x' y') \<noteq> nat (indexOf (gridWidth w) x y)"
  proof
    assume "nat (indexOf (gridWidth w) x' y') = nat (indexOf (gridWidth w) x y)"
    then have "x' = x \<and> y' = y"
      using indexOf_nat_inj [of x' "gridWidth w" y' x y] g assms(1)
      unfolding in_grid_def by simp
    then show False using far assms(2) by simp
  qed
  then show ?thesis unfolding eq by simp
qed

lemma setWall_protected:
  assumes "in_grid w x y" "near_nest w x y"
  shows "obstacles (setWall w cx cy b r) ! nat (indexOf (gridWidth w) x y)
           = obstacles w ! nat (indexOf (gridWidth w) x y)"
proof -
  let ?j = "nat (indexOf (gridWidth w) x y)"
  have inner: "fold (setWall_cell w cx cy b r y') xs obs ! ?j = obs ! ?j" for y' xs obs
    by (rule fold_invariant [where I = "\<lambda>d. d ! ?j = obs ! ?j"])
       (simp_all add: setWall_cell_protected [OF assms])
  have "fold (\<lambda>y'. fold (setWall_cell w cx cy b r y') [cx - r .. cx + r])
             [cy - r .. cy + r] (obstacles w) ! ?j = obstacles w ! ?j"
    by (rule fold_invariant [where I = "\<lambda>d. d ! ?j = obstacles w ! ?j"])
       (simp_all add: inner)
  then show ?thesis unfolding setWall_def by simp
qed

lemma nest_clear_cong:
  assumes "nest_clear w" "gridWidth w' = gridWidth w" "gridHeight w' = gridHeight w"
    "nest w' = nest w" "obstacles w' = obstacles w"
  shows "nest_clear w'"
  using assms unfolding nest_clear_def in_grid_def near_nest_def by simp

lemma nest_clear_zeros:
  assumes "grid_ok w" "gridWidth w' = gridWidth w" "gridHeight w' = gridHeight w"
    "obstacles w' = map (\<lambda>_. 0) (obstacles w)"
  shows "nest_clear w'"
proof -
  have "obstacles w' ! nat (indexOf (gridWidth w') x y) = 0" if "in_grid w' x y" for x y
  proof -
    have "nat (indexOf (gridWidth w) x y) < length (obstacles w)"
      using that assms(1-3) indexOf_nat_less [of x "gridWidth w" y "gridHeight w"]
      unfolding grid_ok_def in_grid_def by simp
    then show ?thesis using assms(2,4) by simp
  qed
  then show ?thesis unfolding nest_clear_def by simp
qed

lemma nest_clear_action:
  assumes "grid_ok w" "nest_clear w"
  shows "nest_clear (apply_action w a)"
proof (cases a)
  case (Step i sm rT rB)
  then show ?thesis using assms(2) by (auto intro: nest_clear_cong simp: step_ant_frame)
next
  case Advance
  then show ?thesis using assms(2) by (auto intro: nest_clear_cong simp: diffuse_frame)
next
  case CountTick
  then show ?thesis using assms(2) by (auto intro: nest_clear_cong)
next
  case (AddFood cx cy n)
  then show ?thesis using assms(2) by (auto intro: nest_clear_cong simp: addFood_frame)
next
  case (SetWall cx cy b r)
  have "obstacles (setWall w cx cy b r) ! nat (indexOf (gridWidth w) x y) = 0"
    if "in_grid w x y" "near_nest w x y" for x y
    using setWall_protected [OF that] assms(2) that unfolding nest_clear_def by simp
  then show ?thesis
    unfolding SetWall nest_clear_def in_grid_def near_nest_def
    by (simp add: setWall_frame in_grid_def near_nest_def)
next
  case (SetAntCount n rnd)
  then show ?thesis using assms(2) by (auto intro: nest_clear_cong simp: setAntCount_frame)
next
  case (Reset n rnd)
  then show ?thesis using nest_clear_zeros [OF assms(1)] by (simp add: reset_frame)
qed

lemma reachable_nest_clear: "reachable w \<Longrightarrow> nest_clear w"
proof (induction rule: reachable.induct)
  case (start rnd isMobile innerWidth antCount)
  have "grid_ok (new_World (GRID_WIDTH isMobile innerWidth) (GRID_HEIGHT isMobile innerWidth))"
    using GRID_dims [of isMobile innerWidth] by (intro new_World_grid_ok) simp_all
  then show ?case by (rule nest_clear_zeros) (simp_all add: reset_frame)
next
  case (act wld a)
  then show ?case using reachable_grid_ok nest_clear_action by blast
qed

text \<open>
  Claim C8. In a reachable world no cell within \<^verbatim>\<open>NEST_RADIUS_CELLS\<close> of the nest is
  blocked, and a further \<^verbatim>\<open>setWall\<close> call, whatever its centre, radius and flag, leaves
  such a cell passable.
\<close>

theorem nest_zone_never_blocked:
  assumes "reachable w" "in_grid w x y" "near_nest w x y"
  shows "obstacles w ! nat (indexOf (gridWidth w) x y) = 0
     \<and> obstacles (setWall w cellX cellY isWall radiusCells) ! nat (indexOf (gridWidth w) x y) = 0"
proof -
  have "obstacles w ! nat (indexOf (gridWidth w) x y) = 0"
    using reachable_nest_clear [OF assms(1)] assms(2,3) unfolding nest_clear_def by simp
  then show ?thesis using setWall_protected [OF assms(2,3)] by simp
qed

theorem nest_zone_never_blocked_witness:
  "(let w = reset (new_World (GRID_WIDTH False 1600) (GRID_HEIGHT False 1600)) 200 (\<lambda>_. 0)
    in obstacles (setWall w 116 46 True 5) ! nat (indexOf (gridWidth w) 116 46) = 0)"
proof -
  let ?w = "reset (new_World (GRID_WIDTH False 1600) (GRID_HEIGHT False 1600)) 200 (\<lambda>_. 0)"
  have r: "reachable ?w"
    by (rule reachable.start) (simp add: is_draw_def)
  have dims: "gridWidth ?w = 233" "gridHeight ?w = 93" "nest ?w = \<lparr>nest_x = 116, nest_y = 46\<rparr>"
    by (simp_all add: reset_frame new_World_def GRID_WIDTH_def GRID_HEIGHT_def
          computeCanvasSize_def CELL_SIZE_def)
  have g: "in_grid ?w 116 46" unfolding in_grid_def dims by simp
  have n: "near_nest ?w 116 46"
    unfolding near_nest_def dims by (simp add: distanceCells_le_iff NEST_RADIUS_CELLS_def)
  show ?thesis
    unfolding Let_def using nest_zone_never_blocked [OF r g n, of 116 46 True 5] by simp
qed

subsection \<open>Moving and bouncing\<close>

text \<open>The candidate position of a move and the three tests of \<^verbatim>\<open>handleCollisions\<close>.\<close>

lemma handleCollisions_bounced:
  "fst (handleCollisions w a nx ny rB) \<longleftrightarrow>
     (\<lfloor>nx\<rfloor> < 0 \<or> \<lfloor>nx\<rfloor> \<ge> gridWidth w) \<or> (\<lfloor>ny\<rfloor> < 0 \<or> \<lfloor>ny\<rfloor> \<ge> gridHeight w)
     \<or> obstacles w ! nat (indexOf (gridWidth w) (clamp \<lfloor>nx\<rfloor> 0 (gridWidth w - 1))
                                               (clamp \<lfloor>ny\<rfloor> 0 (gridHeight w - 1))) = 1"
  unfolding handleCollisions_def Let_def by (auto split: prod.splits if_splits)

lemma handleCollisions_not_bounced:
  "\<not> fst (handleCollisions w a nx ny rB) \<Longrightarrow> in_grid w \<lfloor>nx\<rfloor> \<lfloor>ny\<rfloor>"
  unfolding handleCollisions_bounced in_grid_def by auto

lemma turn_and_move_eq:
  "turn_and_move w a turn sm rB =
     (let ang = wrapAngle (angle a + turn);
          stp = ANT_STEP_SPEED * (if sm = 0 then 1 else sm);
          nx = ant_x a + cos ang * stp;
          ny = ant_y a + sin ang * stp;
          r = handleCollisions w (a\<lparr>angle := ang\<rparr>) nx ny rB
      in (fst r, if \<not> fst r then (snd r)\<lparr>ant_x := nx, ant_y := ny\<rparr> else snd r))"
  unfolding turn_and_move_def Let_def by (simp add: split_beta)

lemma turn_and_move_position:
  fixes w a turn sm rB
  defines "ang \<equiv> wrapAngle (angle a + turn)"
    and "stp \<equiv> ANT_STEP_SPEED * (if sm = 0 then 1 else sm)"
  defines "nx \<equiv> ant_x a + cos ang * stp" and "ny \<equiv> ant_y a + sin ang * stp"
  defines "b \<equiv> fst (handleCollisions w (a\<lparr>angle := ang\<rparr>) nx ny rB)"
  shows "fst (turn_and_move w a turn sm rB) = b"
    and "ant_x (snd (turn_and_move w a turn sm rB)) = (if b then ant_x a else nx)"
    and "ant_y (snd (turn_and_move w a turn sm rB)) = (if b then ant_y a else ny)"
  unfolding turn_and_move_eq Let_def b_def nx_def ny_def stp_def ang_def
  by (simp_all add: handleCollisions_frame)

lemma turn_and_move_in_grid:
  assumes "ant_in_grid w a"
  shows "ant_in_grid w (snd (turn_and_move w a turn sm rB))"
proof -
  let ?ang = "wrapAngle (angle a + turn)"
  let ?stp = "ANT_STEP_SPEED * (if sm = 0 then 1 else sm)"
  let ?nx = "ant_x a + cos ?ang * ?stp"
  let ?ny = "ant_y a + sin ?ang * ?stp"
  show ?thesis
  proof (cases "fst (handleCollisions w (a\<lparr>angle := ?ang\<rparr>) ?nx ?ny rB)")
    case True
    then show ?thesis
      using assms unfolding ant_in_grid_def turn_and_move_position by simp
  next
    case False
    then show ?thesis
      using handleCollisions_not_bounced [OF False]
      unfolding ant_in_grid_def turn_and_move_position by simp
  qed
qed

lemma step_position:
  "ant_x (snd (step w a sm rT rB)) = ant_x (snd (turn_and_move w a (decide_turn w a (sense w a) rT) sm rB))"
  "ant_y (snd (step w a sm rT rB)) = ant_y (snd (turn_and_move w a (decide_turn w a (sense w a) rT) sm rB))"
  unfolding step_eq by (simp_all only: interact_frame)

lemma step_in_grid:
  assumes "ant_in_grid w a"
  shows "ant_in_grid w (snd (step w a sm rT rB))"
  using turn_and_move_in_grid [OF assms, of "decide_turn w a (sense w a) rT" sm rB]
  unfolding ant_in_grid_def step_position .

subsection \<open>Ants stay on the grid\<close>

lemma ant_in_grid_cong:
  "gridWidth w' = gridWidth w \<Longrightarrow> gridHeight w' = gridHeight w \<Longrightarrow>
   ant_in_grid w' a = ant_in_grid w a"
  unfolding ant_in_grid_def in_grid_def by simp

lemma ants_in_grid_cong:
  assumes "ants_in_grid w" "gridWidth w' = gridWidth w" "gridHeight w' = gridHeight w"
    "set (ants w') \<subseteq> set (ants w)"
  shows "ants_in_grid w'"
  using assms ant_in_grid_cong [OF assms(2,3)] unfolding ants_in_grid_def by auto

lemma spawn_in_grid:
  assumes "grid_ok w" "\<forall>k. is_draw (rnd k)"
  shows "ant_in_grid w (spawn_nth w rnd i)"
proof -
  have n: "nest_x (nest w) = gridWidth w div 2" "nest_y (nest w) = gridHeight w div 2"
    and g: "2 \<le> gridWidth w" "2 \<le> gridHeight w"
    using assms(1) unfolding grid_ok_def by simp_all
  have jitter: "0 \<le> \<lfloor>of_int (m div 2) + r - 1 / 2 :: real\<rfloor> \<and> \<lfloor>of_int (m div 2) + r - 1 / 2 :: real\<rfloor> < m"
    if "2 \<le> m" "is_draw r" for m :: int and r :: real
  proof -
    have "1 \<le> m div 2" "m div 2 < m" using that(1) by simp_all
    moreover have "m div 2 - 1 \<le> \<lfloor>of_int (m div 2) + r - 1 / 2 :: real\<rfloor>"
      "\<lfloor>of_int (m div 2) + r - 1 / 2 :: real\<rfloor> \<le> m div 2"
      using that(2) unfolding is_draw_def by linarith+
    ultimately show ?thesis by linarith
  qed
  show ?thesis
    unfolding ant_in_grid_def in_grid_def spawn_nth_def spawnAtNest_def new_Ant_def n
    using jitter [OF g(1), of "rnd (4 * i)"] jitter [OF g(2), of "rnd (4 * i + 1)"] assms(2)
    by simp
qed

lemma ants_in_grid_action:
  assumes "grid_ok w" "ants_in_grid w" "action_ok w a"
  shows "ants_in_grid (apply_action w a)"
proof (cases a)
  case (Step i sm rT rB)
  then have i: "i < length (ants w)" using assms(3) by simp
  then have "ant_in_grid w (ants w ! i)" using assms(2) unfolding ants_in_grid_def by simp
  then have "ant_in_grid w (snd (step w (ants w ! i) sm rT rB))" by (rule step_in_grid)
  then have "\<forall>b \<in> set ((ants w)[i := snd (step w (ants w ! i) sm rT rB)]). ant_in_grid w b"
    using assms(2) set_update_subset_insert [of "ants w" i] unfolding ants_in_grid_def by blast
  then show ?thesis
    unfolding Step ants_in_grid_def
    using ant_in_grid_cong [of "step_ant w i sm rT rB" w]
    by (simp add: step_ant_frame)
next
  case Advance
  then show ?thesis using assms(2) by (auto intro: ants_in_grid_cong simp: diffuse_frame)
next
  case CountTick
  then show ?thesis using assms(2) by (auto intro: ants_in_grid_cong)
next
  case (AddFood cx cy n)
  then show ?thesis using assms(2) by (auto intro: ants_in_grid_cong simp: addFood_frame)
next
  case (SetWall cx cy b r)
  then show ?thesis using assms(2) by (auto intro: ants_in_grid_cong simp: setWall_frame)
next
  case (SetAntCount n rnd)
  then have d: "\<forall>k. is_draw (rnd k)" using assms(3) by simp
  have "set (ants (setAntCount w n rnd)) \<subseteq> set (ants w) \<union> range (spawn_nth w rnd)"
    unfolding setAntCount_def Let_def by (auto dest: in_set_takeD)
  then have "\<forall>b \<in> set (ants (setAntCount w n rnd)). ant_in_grid w b"
    using assms(2) spawn_in_grid [OF assms(1) d] unfolding ants_in_grid_def by blast
  then show ?thesis
    unfolding SetAntCount ants_in_grid_def
    using ant_in_grid_cong [of "setAntCount w n rnd" w]
    by (simp add: setAntCount_frame)
next
  case (Reset n rnd)
  then have d: "\<forall>k. is_draw (rnd k)" using assms(3) by simp
  have "set (ants (reset w n rnd)) \<subseteq> range (spawn_nth w rnd)"
    unfolding reset_def by auto
  then have "\<forall>b \<in> set (ants (reset w n rnd)). ant_in_grid w b"
    using spawn_in_grid [OF assms(1) d] by blast
  then show ?thesis
    unfolding Reset ants_in_grid_def
    using ant_in_grid_cong [of "reset w n rnd" w]
    by (simp add: reset_frame)
qed

lemma reachable_ants_in_grid: "reachable w \<Longrightarrow> ants_in_grid w"
proof (induction rule: reachable.induct)
  case (start rnd isMobile innerWidth antCount)
  let ?w = "new_World (GRID_WIDTH isMobile innerWidth) (GRID_HEIGHT isMobile innerWidth)"
  have g: "grid_ok ?w"
    using GRID_dims [of isMobile innerWidth] by (intro new_World_grid_ok) simp_all
  have "ants_in_grid ?w" unfolding ants_in_grid_def new_World_def by simp
  then have "ants_in_grid (apply_action ?w (Reset antCount rnd))"
    using g start by (intro ants_in_grid_action) simp_all
  then show ?case by simp
next
  case (act wld a)
  then show ?case using reachable_grid_ok ants_in_grid_action by blast
qed

text \<open>
  Claim C7. In a reachable world the cell of every ant, the floor of its position, lies in
  \<open>[0, W - 1] \<times> [0, H - 1]\<close>, and it still does after a step of the ant: a candidate
  position whose cell is outside the grid sets the flag \<^verbatim>\<open>bounced\<close>, and the ant keeps
  its position.
\<close>

theorem ants_stay_on_grid:
  assumes "reachable w" "a \<in> set (ants w)"
  shows "0 \<le> \<lfloor>ant_x a\<rfloor> \<and> \<lfloor>ant_x a\<rfloor> \<le> gridWidth w - 1
     \<and> 0 \<le> \<lfloor>ant_y a\<rfloor> \<and> \<lfloor>ant_y a\<rfloor> \<le> gridHeight w - 1
     \<and> ant_in_grid w (snd (step w a speedMultiplier rTurn rBounce))"
proof -
  have "ant_in_grid w a"
    using reachable_ants_in_grid [OF assms(1)] assms(2) unfolding ants_in_grid_def by simp
  then show ?thesis
    using step_in_grid [of w a speedMultiplier rTurn rBounce]
    unfolding ant_in_grid_def in_grid_def by simp
qed

theorem ants_stay_on_grid_witness:
  "(let w = reset (new_World (GRID_WIDTH False 1600) (GRID_HEIGHT False 1600)) 200 (\<lambda>_. 0);
        a = ants w ! 0
    in 0 \<le> \<lfloor>ant_x a\<rfloor> \<and> \<lfloor>ant_x a\<rfloor> \<le> gridWidth w - 1
       \<and> 0 \<le> \<lfloor>ant_y a\<rfloor> \<and> \<lfloor>ant_y a\<rfloor> \<le> gridHeight w - 1
       \<and> ant_in_grid w (snd (step w a 1 0 0)))"
proof -
  let ?w = "reset (new_World (GRID_WIDTH False 1600) (GRID_HEIGHT False 1600)) 200 (\<lambda>_. 0)"
  have r: "reachable ?w"
    by (rule reachable.start) (simp add: is_draw_def)
  have "length (ants ?w) = 200" unfolding reset_def by simp
  then have m: "ants ?w ! 0 \<in> set (ants ?w)" by (intro nth_mem) simp
  show ?thesis
    unfolding Let_def using ants_stay_on_grid [OF r m, of 1 0 0] .
qed

subsection \<open>Wrapping an angle\<close>

lemma wrap_up_unfold:
  "a < - pi \<Longrightarrow> wrap_up a = wrap_up (a + pi * 2)" "\<not> a < - pi \<Longrightarrow> wrap_up a = a"
  by (subst wrap_up.simps, simp)+

lemma wrap_down_unfold:
  "a > pi \<Longrightarrow> wrap_down a = wrap_down (a - pi * 2)" "\<not> a > pi \<Longrightarrow> wrap_down a = a"
  by (subst wrap_down.simps, simp)+

lemma wrap_up_ge: "- pi \<le> wrap_up a"
proof (induction a rule: wrap_up.induct)
  case (1 a)
  show ?case
  proof (cases "a < - pi")
    case True
    show ?thesis unfolding wrap_up_unfold(1) [OF True] by (rule 1 [OF True])
  next
    case False
    then show ?thesis unfolding wrap_up_unfold(2) [OF False] by simp
  qed
qed

lemma wrap_up_le: "a \<le> pi \<Longrightarrow> wrap_up a \<le> pi"
proof (induction a rule: wrap_up.induct)
  case (1 a)
  show ?case
  proof (cases "a < - pi")
    case True
    then have "a + pi * 2 \<le> pi" by simp
    then show ?thesis unfolding wrap_up_unfold(1) [OF True] by (rule 1(1) [OF True])
  next
    case False
    then show ?thesis unfolding wrap_up_unfold(2) [OF False] using 1(2) by simp
  qed
qed

lemma wrap_up_turns: "\<exists>k::int. wrap_up a = a + 2 * pi * of_int k"
proof (induction a rule: wrap_up.induct)
  case (1 a)
  show ?case
  proof (cases "a < - pi")
    case True
    from 1 [OF True] obtain k :: int where "wrap_up (a + pi * 2) = a + pi * 2 + 2 * pi * of_int k" ..
    then have "wrap_up a = a + 2 * pi * of_int (k + 1)"
      unfolding wrap_up_unfold(1) [OF True] by (simp add: algebra_simps)
    then show ?thesis ..
  next
    case False
    have "wrap_up a = a + 2 * pi * of_int 0" unfolding wrap_up_unfold(2) [OF False] by simp
    then show ?thesis ..
  qed
qed

lemma wrap_down_le: "wrap_down a \<le> pi"
proof (induction a rule: wrap_down.induct)
  case (1 a)
  show ?case
  proof (cases "a > pi")
    case True
    show ?thesis unfolding wrap_down_unfold(1) [OF True] by (rule 1 [OF True])
  next
    case False
    then show ?thesis unfolding wrap_down_unfold(2) [OF False] by simp
  qed
qed

lemma wrap_down_ge: "- pi \<le> a \<Longrightarrow> - pi \<le> wrap_down a"
proof (induction a rule: wrap_down.induct)
  case (1 a)
  show ?case
  proof (cases "a > pi")
    case True
    then have "- pi \<le> a - pi * 2" by simp
    then show ?thesis unfolding wrap_down_unfold(1) [OF True] by (rule 1(1) [OF True])
  next
    case False
    then show ?thesis unfolding wrap_down_unfold(2) [OF False] using 1(2) by simp
  qed
qed

lemma wrap_down_turns: "\<exists>k::int. wrap_down a = a + 2 * pi * of_int k"
proof (induction a rule: wrap_down.induct)
  case (1 a)
  show ?case
  proof (cases "a > pi")
    case True
    from 1 [OF True] obtain k :: int where "wrap_down (a - pi * 2) = a - pi * 2 + 2 * pi * of_int k" ..
    then have "wrap_down a = a + 2 * pi * of_int (k - 1)"
      unfolding wrap_down_unfold(1) [OF True] by (simp add: algebra_simps)
    then show ?thesis ..
  next
    case False
    have "wrap_down a = a + 2 * pi * of_int 0" unfolding wrap_down_unfold(2) [OF False] by simp
    then show ?thesis ..
  qed
qed

lemma wrapAngle_range: "- pi \<le> wrapAngle a" "wrapAngle a \<le> pi"
  unfolding wrapAngle_def using wrap_up_ge [of a] wrap_down_ge wrap_down_le by simp_all

lemma wrapAngle_turns: "\<exists>k::int. wrapAngle a = a + 2 * pi * of_int k"
proof -
  obtain k :: int where k: "wrap_up a = a + 2 * pi * of_int k"
    using wrap_up_turns [of a] ..
  obtain l :: int where l: "wrap_down (wrap_up a) = wrap_up a + 2 * pi * of_int l"
    using wrap_down_turns [of "wrap_up a"] ..
  have "wrapAngle a = wrap_up a + 2 * pi * of_int l"
    unfolding wrapAngle_def by (rule l)
  also have "\<dots> = a + 2 * pi * of_int (k + l)"
    unfolding k by (simp add: algebra_simps)
  finally show ?thesis ..
qed

lemma wrapAngle_id:
  assumes "- pi \<le> a" "a \<le> pi"
  shows "wrapAngle a = a"
proof -
  have u: "wrap_up a = a" using assms(1) by (intro wrap_up_unfold(2)) simp
  have d: "wrap_down a = a" using assms(2) by (intro wrap_down_unfold(2)) simp
  show ?thesis unfolding wrapAngle_def u d ..
qed

subsection \<open>The turn of a returning ant\<close>

lemma sense_returning: "hasFood a \<Longrightarrow> sense w a = \<lparr> forward = 0, left = 0, right = 0 \<rparr>"
  unfolding sense_def by simp

lemma clamp_abs: "0 \<le> m \<Longrightarrow> \<bar>clamp v (- m) m\<bar> \<le> m" for v m :: real
  unfolding clamp_def by auto

text \<open>
  Claim C9. For an ant that carries food, sensing is skipped (the three sensed values are
  0), the turn is the difference between the bearing of the nest and the heading, wrapped
  into \<open>[- pi, pi]\<close> (it differs from the plain difference by a whole number of turns), and
  clamped to \<open>\<plusminus> ANT_TURN_ANGLE\<close>; the bias by the sensed values does not apply.
\<close>

theorem returning_turn:
  assumes "hasFood a"
  shows "(let delta = Math_atan2 (of_int (nest_y (nest w)) - ant_y a) (of_int (nest_x (nest w)) - ant_x a)
                        - angle a
          in sense w a = \<lparr> forward = 0, left = 0, right = 0 \<rparr>
             \<and> decide_turn w a (sense w a) rTurn = clamp (wrapAngle delta) (- ANT_TURN_ANGLE) ANT_TURN_ANGLE
             \<and> - pi \<le> wrapAngle delta \<and> wrapAngle delta \<le> pi
             \<and> (\<exists>k::int. wrapAngle delta = delta + 2 * pi * of_int k)
             \<and> \<bar>decide_turn w a (sense w a) rTurn\<bar> \<le> ANT_TURN_ANGLE)"
proof -
  let ?delta = "Math_atan2 (of_int (nest_y (nest w)) - ant_y a) (of_int (nest_x (nest w)) - ant_x a)
                  - angle a"
  have s: "sense w a = \<lparr> forward = 0, left = 0, right = 0 \<rparr>"
    using assms by (rule sense_returning)
  have t: "decide_turn w a (sense w a) rTurn = clamp (wrapAngle ?delta) (- ANT_TURN_ANGLE) ANT_TURN_ANGLE"
    unfolding s decide_turn_def Let_def using assms by (simp add: SCENT_THRESHOLD_def)
  have "0 \<le> ANT_TURN_ANGLE" unfolding ANT_TURN_ANGLE_def by simp
  then have "\<bar>decide_turn w a (sense w a) rTurn\<bar> \<le> ANT_TURN_ANGLE"
    unfolding t by (rule clamp_abs)
  then show ?thesis
    unfolding Let_def using s t wrapAngle_range [of ?delta] wrapAngle_turns [of ?delta] by blast
qed

theorem returning_turn_witness:
  "(let w = new_World 233 93;
        a = \<lparr> ant_x = 110, ant_y = 46, angle = 1, hasFood = True, wiggle = 0 \<rparr>
    in sense w a = \<lparr> forward = 0, left = 0, right = 0 \<rparr>
       \<and> decide_turn w a (sense w a) 0 = - ANT_TURN_ANGLE)"
proof -
  let ?w = "new_World 233 93"
  let ?a = "\<lparr> ant_x = 110, ant_y = 46, angle = 1, hasFood = True, wiggle = 0 \<rparr>"
  have h: "hasFood ?a" by simp
  have at: "Math_atan2 (of_int (nest_y (nest ?w)) - ant_y ?a) (of_int (nest_x (nest ?w)) - ant_x ?a) = 0"
    unfolding Math_atan2_def new_World_def by simp
  have p: "2 \<le> pi" "pi < 4" using pi_ge_two pi_less_4 by simp_all
  have wr: "wrapAngle (- 1) = - 1" using p by (intro wrapAngle_id) simp_all
  have cl: "clamp (- 1 :: real) (- ANT_TURN_ANGLE) ANT_TURN_ANGLE = - ANT_TURN_ANGLE"
    unfolding clamp_def ANT_TURN_ANGLE_def using p by simp
  from returning_turn [OF h, of ?w 0]
  have "sense ?w ?a = \<lparr> forward = 0, left = 0, right = 0 \<rparr>
     \<and> decide_turn ?w ?a (sense ?w ?a) 0
         = clamp (wrapAngle (Math_atan2 (of_int (nest_y (nest ?w)) - ant_y ?a)
                                        (of_int (nest_x (nest ?w)) - ant_x ?a) - angle ?a))
                 (- ANT_TURN_ANGLE) ANT_TURN_ANGLE"
    unfolding Let_def by blast
  then have s: "sense ?w ?a = \<lparr> forward = 0, left = 0, right = 0 \<rparr>"
    and t: "decide_turn ?w ?a (sense ?w ?a) 0
         = clamp (wrapAngle (Math_atan2 (of_int (nest_y (nest ?w)) - ant_y ?a)
                                        (of_int (nest_x (nest ?w)) - ant_x ?a) - angle ?a))
                 (- ANT_TURN_ANGLE) ANT_TURN_ANGLE"
    by blast+
  have "decide_turn ?w ?a (sense ?w ?a) 0 = - ANT_TURN_ANGLE"
    unfolding t at using wr cl by simp
  then show ?thesis unfolding Let_def using s by blast
qed

subsection \<open>The turn of a searching ant\<close>

text \<open>
  Claim C3, as the code has it. The turn of a searching ant follows the cases of the
  specification, but the random turn of the last case (left equals right, both above
  forward) is drawn as the wander turn is: it is \<open>(draw - 1 / 2) * ANT_TURN_ANGLE\<close>, in
  \<open>[- ANT_TURN_ANGLE / 2, ANT_TURN_ANGLE / 2)\<close>.
\<close>

theorem searching_turn:
  assumes "\<not> hasFood a"
  shows "decide_turn w a sn rTurn =
           (if max (forward sn) (max (left sn) (right sn)) < SCENT_THRESHOLD
            then (rTurn - 1 / 2) * ANT_TURN_ANGLE
            else if forward sn \<ge> left sn \<and> forward sn \<ge> right sn then 0
            else if left sn > right sn then SENSOR_ANGLE
            else if right sn > left sn then - SENSOR_ANGLE
            else (rTurn - 1 / 2) * ANT_TURN_ANGLE)
     \<and> (is_draw rTurn \<longrightarrow> - (ANT_TURN_ANGLE / 2) \<le> (rTurn - 1 / 2) * ANT_TURN_ANGLE
                           \<and> (rTurn - 1 / 2) * ANT_TURN_ANGLE < ANT_TURN_ANGLE / 2)
     \<and> (rTurn - 1 / 2) * ANT_TURN_ANGLE = randomBetween rTurn (- (ANT_TURN_ANGLE / 2)) (ANT_TURN_ANGLE / 2)"
proof -
  have A: "0 < ANT_TURN_ANGLE" unfolding ANT_TURN_ANGLE_def by simp
  have eq: "decide_turn w a sn rTurn =
           (if max (forward sn) (max (left sn) (right sn)) < SCENT_THRESHOLD
            then (rTurn - 1 / 2) * ANT_TURN_ANGLE
            else if forward sn \<ge> left sn \<and> forward sn \<ge> right sn then 0
            else if left sn > right sn then SENSOR_ANGLE
            else if right sn > left sn then - SENSOR_ANGLE
            else (rTurn - 1 / 2) * ANT_TURN_ANGLE)"
    unfolding decide_turn_def Let_def using assms by (simp add: not_le)
  have range: "- (ANT_TURN_ANGLE / 2) \<le> (rTurn - 1 / 2) * ANT_TURN_ANGLE
             \<and> (rTurn - 1 / 2) * ANT_TURN_ANGLE < ANT_TURN_ANGLE / 2" if "is_draw rTurn"
  proof -
    have "- (1 / 2) \<le> rTurn - 1 / 2" "rTurn - 1 / 2 < 1 / 2"
      using that unfolding is_draw_def by simp_all
    then have "- (1 / 2) * ANT_TURN_ANGLE \<le> (rTurn - 1 / 2) * ANT_TURN_ANGLE"
      "(rTurn - 1 / 2) * ANT_TURN_ANGLE < 1 / 2 * ANT_TURN_ANGLE"
      using A by (simp_all only: mult_le_cancel_right mult_less_cancel_right) simp_all
    then show ?thesis by simp
  qed
  have rb: "(rTurn - 1 / 2) * ANT_TURN_ANGLE = randomBetween rTurn (- (ANT_TURN_ANGLE / 2)) (ANT_TURN_ANGLE / 2)"
    unfolding randomBetween_def by (simp add: algebra_simps)
  show ?thesis using eq range rb by blast
qed

theorem searching_turn_witness:
  "(let a = \<lparr> ant_x = 110, ant_y = 46, angle = 1, hasFood = False, wiggle = 0 \<rparr>;
        sn = \<lparr> forward = 0, left = 1, right = 1 \<rparr>
    in decide_turn (new_World 233 93) a sn 0 = - (ANT_TURN_ANGLE / 2)
       \<and> decide_turn (new_World 233 93) a (sn\<lparr>left := 2\<rparr>) 0 = SENSOR_ANGLE)"
proof -
  let ?a = "\<lparr> ant_x = 110, ant_y = 46, angle = 1, hasFood = False, wiggle = 0 \<rparr>"
  have h: "\<not> hasFood ?a" by simp
  have d: "is_draw 0" unfolding is_draw_def by simp
  show ?thesis
    unfolding Let_def
    using searching_turn [OF h, of "new_World 233 93" "\<lparr> forward = 0, left = 1, right = 1 \<rparr>" 0]
          searching_turn [OF h, of "new_World 233 93" "\<lparr> forward = 0, left = 2, right = 1 \<rparr>" 0] d
    by (simp add: SCENT_THRESHOLD_def)
qed

text \<open>
  The specification's turn differs from the code's in the last case: at the draw 0, with
  left and right equal and above forward, the code turns by half the maximal turn and the
  specification by the whole of it.
\<close>

theorem searching_turn_counterexample:
  "(let a = \<lparr> ant_x = 110, ant_y = 46, angle = 1, hasFood = False, wiggle = 0 \<rparr>;
        sn = \<lparr> forward = 0, left = 1, right = 1 \<rparr>
    in decide_turn (new_World 233 93) a sn 0 = - (ANT_TURN_ANGLE / 2)
       \<and> spec_searching_turn sn 0 = - ANT_TURN_ANGLE
       \<and> decide_turn (new_World 233 93) a sn 0 \<noteq> spec_searching_turn sn 0)"
proof -
  have A: "0 < ANT_TURN_ANGLE" unfolding ANT_TURN_ANGLE_def by simp
  show ?thesis
    unfolding Let_def decide_turn_def spec_searching_turn_def randomBetween_def
    using A by (simp add: SCENT_THRESHOLD_def)
qed

subsection \<open>Reflections\<close>

lemma handleCollisions_angle:
  "angle (snd (handleCollisions w a nx ny rB)) =
     (let h1 = (if \<lfloor>nx\<rfloor> < 0 \<or> \<lfloor>nx\<rfloor> \<ge> gridWidth w then pi - angle a else angle a);
          h2 = (if \<lfloor>ny\<rfloor> < 0 \<or> \<lfloor>ny\<rfloor> \<ge> gridHeight w then - h1 else h1)
      in if obstacles w ! nat (indexOf (gridWidth w) (clamp \<lfloor>nx\<rfloor> 0 (gridWidth w - 1))
                                                 (clamp \<lfloor>ny\<rfloor> 0 (gridHeight w - 1))) = 1
         then wrapAngle (h2 + pi / 2 + (rB - 1 / 2)) else h2)"
  unfolding handleCollisions_def Let_def by (auto split: prod.splits if_splits)

lemma turn_and_move_angle:
  "angle (snd (turn_and_move w a turn sm rB)) =
     angle (snd (handleCollisions w (a\<lparr>angle := wrapAngle (angle a + turn)\<rparr>)
        (ant_x a + cos (wrapAngle (angle a + turn)) * (ANT_STEP_SPEED * (if sm = 0 then 1 else sm)))
        (ant_y a + sin (wrapAngle (angle a + turn)) * (ANT_STEP_SPEED * (if sm = 0 then 1 else sm)))
        rB))"
  unfolding turn_and_move_eq Let_def by simp

lemma decide_turn_returning:
  assumes "hasFood a"
  shows "decide_turn w a (sense w a) rTurn
           = clamp (wrapAngle (Math_atan2 (of_int (nest_y (nest w)) - ant_y a)
                                          (of_int (nest_x (nest w)) - ant_x a) - angle a))
                   (- ANT_TURN_ANGLE) ANT_TURN_ANGLE"
  unfolding sense_returning [OF assms] decide_turn_def Let_def
  using assms by (simp add: SCENT_THRESHOLD_def)

lemma floor_near:
  fixes x c :: real
  assumes "- 1 \<le> c" "c \<le> 1" "of_int n + 1 / 10 \<le> x" "x < of_int n + 9 / 10"
  shows "\<lfloor>x + c * (1 / 10)\<rfloor> = n"
proof -
  have "of_int n \<le> x + c * (1 / 10)" "x + c * (1 / 10) < of_int n + 1"
    using assms by linarith+
  then show ?thesis by linarith
qed

lemma cos_beyond_120:
  assumes "2 * pi / 3 < t" "t \<le> pi"
  shows "cos t < - (1 / 2)"
proof -
  have "0 \<le> 2 * pi / 3" by simp
  then have "cos t < cos (2 * pi / 3)" using assms by (rule cos_monotone_0_pi)
  then show ?thesis by (simp add: cos_120)
qed


text \<open>
  Claim C6. In a step, let the candidate position \<open>(nx, ny)\<close> be the one \<^verbatim>\<open>ANT_STEP_SPEED\<close>
  times the speed multiplier ahead in the heading after the turn. The flag \<^verbatim>\<open>bounced\<close> is
  set exactly when the candidate cell is off the grid in x or in y, or the cell clamped to
  the grid is an obstacle; then the ant keeps its position, and otherwise it moves to the
  candidate. The heading after the move is reflected in turn for each test that fired:
  \<open>pi - heading\<close> off the grid in x, then the negation off the grid in y, then a quarter
  turn plus \<open>rBounce - 1 / 2\<close>, wrapped, at an obstacle.
\<close>

theorem reflection_keeps_position:
  assumes "turn = decide_turn w a (sense w a) rTurn"
    and "ang = wrapAngle (angle a + turn)"
    and "stp = ANT_STEP_SPEED * (if speedMultiplier = 0 then 1 else speedMultiplier)"
    and "nx = ant_x a + cos ang * stp"
    and "ny = ant_y a + sin ang * stp"
    and "moved = turn_and_move w a turn speedMultiplier rBounce"
    and "a' = snd (step w a speedMultiplier rTurn rBounce)"
  shows "(let outX = (\<lfloor>nx\<rfloor> < 0 \<or> \<lfloor>nx\<rfloor> \<ge> gridWidth w);
              outY = (\<lfloor>ny\<rfloor> < 0 \<or> \<lfloor>ny\<rfloor> \<ge> gridHeight w);
              wall = (obstacles w ! nat (indexOf (gridWidth w) (clamp \<lfloor>nx\<rfloor> 0 (gridWidth w - 1))
                                                                (clamp \<lfloor>ny\<rfloor> 0 (gridHeight w - 1))) = 1);
              h1 = (if outX then pi - ang else ang);
              h2 = (if outY then - h1 else h1)
          in fst moved = (outX \<or> outY \<or> wall)
             \<and> ant_x a' = (if outX \<or> outY \<or> wall then ant_x a else nx)
             \<and> ant_y a' = (if outX \<or> outY \<or> wall then ant_y a else ny)
             \<and> angle (snd moved) = (if wall then wrapAngle (h2 + pi / 2 + (rBounce - 1 / 2)) else h2))"
  unfolding assms Let_def step_position turn_and_move_position turn_and_move_angle
    handleCollisions_bounced handleCollisions_angle
  by simp

theorem reflection_keeps_position_witness:
  "(let w = new_World 233 93;
        a = \<lparr> ant_x = 1 / 20, ant_y = 46, angle = pi, hasFood = True, wiggle = 0 \<rparr>;
        b = \<lparr> ant_x = 233 / 2, ant_y = 93 / 2, angle = 0, hasFood = True, wiggle = 0 \<rparr>;
        stuck = turn_and_move w a (decide_turn w a (sense w a) 0) 1 0;
        free = turn_and_move w b (decide_turn w b (sense w b) 0) 1 0
    in fst stuck \<and> angle (snd stuck) = pi / 10
       \<and> ant_x (snd (step w a 1 0 0)) = 1 / 20 \<and> ant_y (snd (step w a 1 0 0)) = 46
       \<and> \<not> fst free
       \<and> ant_x (snd (step w b 1 0 0)) = 233 / 2 + cos (angle (snd free)) * (1 / 10)
       \<and> ant_y (snd (step w b 1 0 0)) = 93 / 2 + sin (angle (snd free)) * (1 / 10))"
proof -
  let ?w = "new_World 233 93"
  let ?a = "\<lparr> ant_x = 1 / 20, ant_y = 46, angle = pi, hasFood = True, wiggle = 0 \<rparr>"
  let ?b = "\<lparr> ant_x = 233 / 2, ant_y = 93 / 2, angle = 0, hasFood = True, wiggle = 0 \<rparr>"
  have w: "gridWidth ?w = 233" "gridHeight ?w = 93" "obstacles ?w = replicate 21669 0"
    "nest ?w = \<lparr>nest_x = 116, nest_y = 46\<rparr>"
    unfolding new_World_def by simp_all
  have p: "2 \<le> pi" "pi < 4" using pi_ge_two pi_less_4 by simp_all
  have free_cell: "replicate 21669 (0 :: 8 word) ! nat (indexOf 233 0 46) \<noteq> 1"
    "replicate 21669 (0 :: 8 word) ! nat (indexOf 233 116 46) \<noteq> 1"
    unfolding indexOf_def by simp_all
  \<comment> \<open>the ant at the left border, heading west\<close>
  have at: "Math_atan2 (of_int (nest_y (nest ?w)) - ant_y ?a) (of_int (nest_x (nest ?w)) - ant_x ?a) = 0"
    unfolding Math_atan2_def w by simp
  have wa: "wrapAngle (0 - pi) = - pi" using wrapAngle_id [of "- pi"] by simp
  have "decide_turn ?w ?a (sense ?w ?a) 0
          = clamp (wrapAngle (Math_atan2 (of_int (nest_y (nest ?w)) - ant_y ?a)
                                         (of_int (nest_x (nest ?w)) - ant_x ?a) - angle ?a))
                  (- ANT_TURN_ANGLE) ANT_TURN_ANGLE"
    by (rule decide_turn_returning) simp
  also have "\<dots> = clamp (wrapAngle (0 - pi)) (- ANT_TURN_ANGLE) ANT_TURN_ANGLE"
    unfolding at by simp
  also have "\<dots> = - (pi / 10)"
    unfolding wa using p by (simp add: clamp_def ANT_TURN_ANGLE_def)
  finally have a1: "- (pi / 10) = decide_turn ?w ?a (sense ?w ?a) 0" by simp
  have a2: "9 * pi / 10 = wrapAngle (angle ?a + - (pi / 10))"
    using p wrapAngle_id [of "9 * pi / 10"] by simp
  have a3: "1 / 10 = ANT_STEP_SPEED * (if (1::real) = 0 then 1 else 1)"
    unfolding ANT_STEP_SPEED_def by simp
  define nxa where "nxa = ant_x ?a + cos (9 * pi / 10) * (1 / 10)"
  define nya where "nya = ant_y ?a + sin (9 * pi / 10) * (1 / 10)"
  have c: "cos (9 * pi / 10) < - (1 / 2)"
    using p by (intro cos_beyond_120) simp_all
  have s: "0 \<le> sin (9 * pi / 10)"
    using p by (intro sin_ge_zero) simp_all
  have pa: "ant_x ?a = 1 / 20" "ant_y ?a = 46" by simp_all
  have "- 1 \<le> nxa" "nxa < 0"
    unfolding nxa_def pa using c cos_ge_minus_one [of "9 * pi / 10"] by linarith+
  then have fxa: "\<lfloor>nxa\<rfloor> = - 1" by linarith
  have "46 \<le> nya" "nya < 47"
    unfolding nya_def pa using s sin_le_one [of "9 * pi / 10"] by linarith+
  then have fya: "\<lfloor>nya\<rfloor> = 46" by linarith
  from reflection_keeps_position [OF a1 a2 a3 nxa_def nya_def refl refl, of 0]
  have A: "fst (turn_and_move ?w ?a (decide_turn ?w ?a (sense ?w ?a) 0) 1 0)
      \<and> angle (snd (turn_and_move ?w ?a (decide_turn ?w ?a (sense ?w ?a) 0) 1 0)) = pi / 10
      \<and> ant_x (snd (step ?w ?a 1 0 0)) = 1 / 20 \<and> ant_y (snd (step ?w ?a 1 0 0)) = 46"
    unfolding Let_def fxa fya w a1 [symmetric]
    using free_cell by (simp add: clamp_def)
  \<comment> \<open>the ant in the middle of the grid\<close>
  define tb where "tb = decide_turn ?w ?b (sense ?w ?b) 0"
  define angb where "angb = wrapAngle (angle ?b + tb)"
  define nxb where "nxb = ant_x ?b + cos angb * (1 / 10)"
  define nyb where "nyb = ant_y ?b + sin angb * (1 / 10)"
  have pb: "ant_x ?b = 233 / 2" "ant_y ?b = 93 / 2" by simp_all
  have fxb: "\<lfloor>nxb\<rfloor> = 116" unfolding nxb_def pb by (rule floor_near) simp_all
  have fyb: "\<lfloor>nyb\<rfloor> = 46" unfolding nyb_def pb by (rule floor_near) simp_all
  from reflection_keeps_position [OF tb_def angb_def a3 nxb_def nyb_def refl refl, of 0]
  have B0: "\<not> fst (turn_and_move ?w ?b tb 1 0)
      \<and> ant_x (snd (step ?w ?b 1 0 0)) = nxb \<and> ant_y (snd (step ?w ?b 1 0 0)) = nyb
      \<and> angle (snd (turn_and_move ?w ?b tb 1 0)) = angb"
    unfolding Let_def fxb fyb w
    using free_cell by (simp add: clamp_def)
  then have B: "\<not> fst (turn_and_move ?w ?b (decide_turn ?w ?b (sense ?w ?b) 0) 1 0)
      \<and> ant_x (snd (step ?w ?b 1 0 0))
          = 233 / 2 + cos (angle (snd (turn_and_move ?w ?b (decide_turn ?w ?b (sense ?w ?b) 0) 1 0))) * (1 / 10)
      \<and> ant_y (snd (step ?w ?b 1 0 0))
          = 93 / 2 + sin (angle (snd (turn_and_move ?w ?b (decide_turn ?w ?b (sense ?w ?b) 0) 1 0))) * (1 / 10)"
    unfolding nxb_def nyb_def tb_def [symmetric] by simp
  show ?thesis unfolding Let_def using A B by blast
qed

subsection \<open>Searching and returning\<close>

lemma interact_hasFood:
  "hasFood (snd (interact w a)) =
     (if hasFood a
      then \<not> distanceCells (of_int (clamp \<lfloor>ant_x a\<rfloor> 0 (gridWidth w - 1)))
                             (of_int (clamp \<lfloor>ant_y a\<rfloor> 0 (gridHeight w - 1)))
                             (of_int (nest_x (nest w))) (of_int (nest_y (nest w)))
             \<le> of_int NEST_RADIUS_CELLS
      else fst (pickUpFoodAt w (clamp \<lfloor>ant_x a\<rfloor> 0 (gridWidth w - 1))
                               (clamp \<lfloor>ant_y a\<rfloor> 0 (gridHeight w - 1))))"
  unfolding interact_def Let_def by (auto split: prod.splits)

lemma interact_score:
  "score (fst (interact w a)) =
     (if hasFood a \<and> \<not> hasFood (snd (interact w a)) then score w + 1 else score w)"
  unfolding interact_def Let_def
  by (auto split: prod.splits simp: pickUpFoodAt_def deliverFood_def)

lemma pickUpFoodAt_deposit:
  "fst (pickUpFoodAt (deposit w a r) cx cy) = fst (pickUpFoodAt w cx cy)"
  unfolding pickUpFoodAt_frame deposit_frame ..

lemma step_hasFood:
  fixes w a sm rT rB
  defines "a' \<equiv> snd (step w a sm rT rB)"
  shows "hasFood a' =
     (if hasFood a
      then \<not> distanceCells (of_int (clamp \<lfloor>ant_x a'\<rfloor> 0 (gridWidth w - 1)))
                             (of_int (clamp \<lfloor>ant_y a'\<rfloor> 0 (gridHeight w - 1)))
                             (of_int (nest_x (nest w))) (of_int (nest_y (nest w)))
             \<le> of_int NEST_RADIUS_CELLS
      else fst (pickUpFoodAt w (clamp \<lfloor>ant_x a'\<rfloor> 0 (gridWidth w - 1))
                               (clamp \<lfloor>ant_y a'\<rfloor> 0 (gridHeight w - 1))))"
  unfolding a'_def step_position
  unfolding step_eq interact_hasFood deposit_frame pickUpFoodAt_deposit turn_and_move_hasFood ..

lemma step_score:
  "score (fst (step w a sm rT rB)) =
     (if hasFood a \<and> \<not> hasFood (snd (step w a sm rT rB)) then score w + 1 else score w)"
  unfolding step_eq interact_score deposit_frame turn_and_move_hasFood ..

lemma score_action: "\<not> is_reset act \<Longrightarrow> score w \<le> score (apply_action w act)"
  by (cases act)
     (simp_all add: step_ant_frame step_score diffuse_frame addFood_frame setWall_frame
        setAntCount_frame)

lemma step_stays_in_cell:
  assumes "of_int n + 1 / 10 \<le> ant_x a" "ant_x a < of_int n + 9 / 10"
    and "of_int m + 1 / 10 \<le> ant_y a" "ant_y a < of_int m + 9 / 10"
  shows "\<lfloor>ant_x (snd (step w a 1 rT rB))\<rfloor> = n" "\<lfloor>ant_y (snd (step w a 1 rT rB))\<rfloor> = m"
proof -
  have x0: "\<lfloor>ant_x a\<rfloor> = n" and y0: "\<lfloor>ant_y a\<rfloor> = m" using assms by linarith+
  have x1: "\<lfloor>ant_x a + cos t * (1 / 10)\<rfloor> = n" for t
    using assms(1,2) by (intro floor_near) simp_all
  have y1: "\<lfloor>ant_y a + sin t * (1 / 10)\<rfloor> = m" for t
    using assms(3,4) by (intro floor_near) simp_all
  have s: "ANT_STEP_SPEED * (if (1::real) = 0 then 1 else 1) = 1 / 10"
    unfolding ANT_STEP_SPEED_def by simp
  show "\<lfloor>ant_x (snd (step w a 1 rT rB))\<rfloor> = n"
    unfolding step_position turn_and_move_position s if_distrib [of floor] x0 x1 by simp
  show "\<lfloor>ant_y (snd (step w a 1 rT rB))\<rfloor> = m"
    unfolding step_position turn_and_move_position s if_distrib [of floor] y0 y1 by simp
qed


text \<open>
  Claim C2. An ant is searching or returning as its flag \<^verbatim>\<open>hasFood\<close> is false or true. In a
  step, with \<open>(ix, iy)\<close> the cell of the ant after its move: a searching ant is returning
  afterwards exactly when \<^verbatim>\<open>pickUpFoodAt\<close> succeeds at that cell; a returning ant is
  searching afterwards exactly when the cell is within \<^verbatim>\<open>NEST_RADIUS_CELLS\<close> of the nest,
  and the score is one more exactly in that case and unchanged in every other. No action
  but a reset lowers the score.
\<close>

theorem agent_state_machine:
  assumes "w' = fst (step w a speedMultiplier rTurn rBounce)"
    and "a' = snd (step w a speedMultiplier rTurn rBounce)"
    and "ix = clamp \<lfloor>ant_x a'\<rfloor> 0 (gridWidth w - 1)"
    and "iy = clamp \<lfloor>ant_y a'\<rfloor> 0 (gridHeight w - 1)"
  shows "hasFood a' =
           (if hasFood a
            then \<not> distanceCells (of_int ix) (of_int iy)
                     (of_int (nest_x (nest w))) (of_int (nest_y (nest w))) \<le> of_int NEST_RADIUS_CELLS
            else fst (pickUpFoodAt w ix iy))
     \<and> score w' = (if hasFood a \<and> \<not> hasFood a' then score w + 1 else score w)
     \<and> (\<not> is_reset act \<longrightarrow> score w \<le> score (apply_action w act))"
  unfolding assms using step_hasFood [of w a speedMultiplier rTurn rBounce]
    step_score [of w a speedMultiplier rTurn rBounce] score_action [of act w]
  by blast

theorem agent_state_machine_witness:
  "(let w = addFood (new_World 233 93) 116 46 3;
        a = \<lparr> ant_x = 233 / 2, ant_y = 93 / 2, angle = 0, hasFood = False, wiggle = 0 \<rparr>;
        b = \<lparr> ant_x = 233 / 2, ant_y = 93 / 2, angle = 0, hasFood = True, wiggle = 0 \<rparr>
    in hasFood (snd (step w a 1 0 0)) \<and> score (fst (step w a 1 0 0)) = 0
       \<and> \<not> hasFood (snd (step w b 1 0 0)) \<and> score (fst (step w b 1 0 0)) = 1
       \<and> score w \<le> score (apply_action w Advance))"
proof -
  let ?w = "addFood (new_World 233 93) 116 46 3"
  let ?a = "\<lparr> ant_x = 233 / 2, ant_y = 93 / 2, angle = 0, hasFood = False, wiggle = 0 \<rparr>"
  let ?b = "\<lparr> ant_x = 233 / 2, ant_y = 93 / 2, angle = 0, hasFood = True, wiggle = 0 \<rparr>"
  have w: "gridWidth ?w = 233" "gridHeight ?w = 93" "nest ?w = \<lparr>nest_x = 116, nest_y = 46\<rparr>"
    "score ?w = 0" "foodPiles ?w = [\<lparr>f_x = 116, f_y = 46, amount = 3\<rparr>]"
    unfolding addFood_def new_World_def by simp_all
  have pick: "fst (pickUpFoodAt ?w 116 46)"
    unfolding pickUpFoodAt_frame w by (simp add: distanceCells_le_iff FOOD_RADIUS_CELLS_def)
  have home: "distanceCells (of_int 116) (of_int 46) (of_int (nest_x (nest ?w))) (of_int (nest_y (nest ?w)))
                \<le> of_int NEST_RADIUS_CELLS"
    unfolding w by (simp add: distanceCells_le_iff NEST_RADIUS_CELLS_def)
  have ca: "clamp \<lfloor>ant_x (snd (step ?w ?a 1 0 0))\<rfloor> 0 (gridWidth ?w - 1) = 116"
    "clamp \<lfloor>ant_y (snd (step ?w ?a 1 0 0))\<rfloor> 0 (gridHeight ?w - 1) = 46"
    unfolding w using step_stays_in_cell [of 116 ?a 46 ?w 0 0] by (simp_all add: clamp_def)
  have cb: "clamp \<lfloor>ant_x (snd (step ?w ?b 1 0 0))\<rfloor> 0 (gridWidth ?w - 1) = 116"
    "clamp \<lfloor>ant_y (snd (step ?w ?b 1 0 0))\<rfloor> 0 (gridHeight ?w - 1) = 46"
    unfolding w using step_stays_in_cell [of 116 ?b 46 ?w 0 0] by (simp_all add: clamp_def)
  from agent_state_machine [OF refl refl ca(1) [symmetric] ca(2) [symmetric], of Advance]
  have A: "hasFood (snd (step ?w ?a 1 0 0)) \<and> score (fst (step ?w ?a 1 0 0)) = 0
        \<and> score ?w \<le> score (apply_action ?w Advance)"
    using pick w(4) by simp
  from agent_state_machine [OF refl refl cb(1) [symmetric] cb(2) [symmetric], of Advance]
  have B: "\<not> hasFood (snd (step ?w ?b 1 0 0)) \<and> score (fst (step ?w ?b 1 0 0)) = 1"
    using home w(4) by simp
  show ?thesis unfolding Let_def using A B by blast
qed

subsection \<open>A deposit in a reachable world\<close>

text \<open>After the reset, food is put on the nest and the first ant steps twice: it picks up in
  the cell (115, 45), where it was spawned, and on the second step deposits there. The cell
  then holds the single-precision value of 0.45.\<close>

lemma step_toFood_searching:
  "\<not> hasFood a \<Longrightarrow> toFood (fst (step w a sm rT rB)) = toFood w"
  unfolding step_eq interact_frame by (simp add: deposit_def Let_def turn_and_move_hasFood)

lemma step_toFood_returning:
  fixes w a sm rT rB
  defines "a' \<equiv> snd (step w a sm rT rB)"
  defines "i \<equiv> nat (indexOf (gridWidth w) (clamp \<lfloor>ant_x a'\<rfloor> 0 (gridWidth w - 1))
                                            (clamp \<lfloor>ant_y a'\<rfloor> 0 (gridHeight w - 1)))"
  assumes "hasFood a"
  shows "toFood (fst (step w a sm rT rB))
           = (toFood w)[i := fround (min PHEROMONE_MAX (toFood w ! i + PHEROMONE_DEPOSIT_FOOD))]"
  unfolding i_def a'_def step_position
  unfolding step_eq interact_frame
  using assms(3) by (simp add: deposit_def Let_def turn_and_move_hasFood)

lemma if_close:
  fixes x d e :: real
  assumes "\<bar>d\<bar> \<le> e"
  shows "\<bar>(if b then x else x + d) - x\<bar> \<le> e"
  using assms by (cases b) simp_all

lemma step_moves_little:
  "\<bar>ant_x (snd (step w a 1 rT rB)) - ant_x a\<bar> \<le> 1 / 10"
  "\<bar>ant_y (snd (step w a 1 rT rB)) - ant_y a\<bar> \<le> 1 / 10"
proof -
  have s: "ANT_STEP_SPEED * (if (1::real) = 0 then 1 else 1) = 1 / 10"
    unfolding ANT_STEP_SPEED_def by simp
  have c: "\<bar>cos t * (1 / 10)\<bar> \<le> 1 / 10" "\<bar>sin t * (1 / 10)\<bar> \<le> 1 / 10" for t :: real
    using abs_cos_le_one [of t] abs_sin_le_one [of t] by (simp_all add: abs_mult)
  show "\<bar>ant_x (snd (step w a 1 rT rB)) - ant_x a\<bar> \<le> 1 / 10"
    unfolding step_position turn_and_move_position s by (rule if_close) (rule c)
  show "\<bar>ant_y (snd (step w a 1 rT rB)) - ant_y a\<bar> \<le> 1 / 10"
    unfolding step_position turn_and_move_position s by (rule if_close) (rule c)
qed

lemma fround_deposit: "fround (45 / 100) = 7549747 / 16777216"
  by code_simp

theorem field_bounds_witness:
  "(let w = apply_action (apply_action (apply_action
              (reset (new_World (GRID_WIDTH False 1600) (GRID_HEIGHT False 1600)) 200 (\<lambda>_. 0))
              (AddFood 116 46 3)) (Step 0 1 0 0)) (Step 0 1 0 0);
        c = toFood w ! nat (indexOf 233 115 45)
    in 0 \<le> c \<and> c \<le> PHEROMONE_MAX \<and> c = 7549747 / 16777216)"
proof -
  define w0 where "w0 = reset (new_World (GRID_WIDTH False 1600) (GRID_HEIGHT False 1600)) 200 (\<lambda>_. 0)"
  define w1 where "w1 = addFood w0 116 46 3"
  define a0 where "a0 = ants w1 ! 0"
  define w2 where "w2 = step_ant w1 0 1 0 0"
  define a1 where "a1 = snd (step w1 a0 1 0 0)"
  define w3 where "w3 = step_ant w2 0 1 0 0"
  define a2 where "a2 = snd (step w2 a1 1 0 0)"
  \<comment> \<open>the world after the reset, and with food on the nest\<close>
  have g: "GRID_WIDTH False 1600 = 233" "GRID_HEIGHT False 1600 = 93"
    unfolding GRID_WIDTH_def GRID_HEIGHT_def computeCanvasSize_def CELL_SIZE_def by simp_all
  have w0: "gridWidth w0 = 233" "gridHeight w0 = 93" "nest w0 = \<lparr>nest_x = 116, nest_y = 46\<rparr>"
    "toFood w0 = replicate 21669 0" "foodPiles w0 = []" "length (ants w0) = 200"
    unfolding w0_def g reset_def new_World_def by simp_all
  have "ants w0 ! 0 = spawn_nth (new_World 233 93) (\<lambda>_. 0) 0"
    unfolding w0_def g reset_def by simp
  then have s0: "ant_x (ants w0 ! 0) = 231 / 2" "ant_y (ants w0 ! 0) = 91 / 2" "\<not> hasFood (ants w0 ! 0)"
    unfolding spawn_nth_def spawnAtNest_def new_Ant_def new_World_def by simp_all
  have w1: "gridWidth w1 = 233" "gridHeight w1 = 93" "nest w1 = \<lparr>nest_x = 116, nest_y = 46\<rparr>"
    "toFood w1 = replicate 21669 0" "length (ants w1) = 200" "ants w1 = ants w0"
    unfolding w1_def addFood_frame by (simp_all add: w0)
  have f1: "foodPiles w1 = [\<lparr>f_x = 116, f_y = 46, amount = 3\<rparr>]"
    unfolding w1_def addFood_def w0 by simp
  have a0: "ant_x a0 = 231 / 2" "ant_y a0 = 91 / 2" "\<not> hasFood a0"
    unfolding a0_def w1 using s0 by simp_all
  \<comment> \<open>the first step: the ant stays in the cell (115, 45) and picks up\<close>
  have c1: "\<lfloor>ant_x a1\<rfloor> = 115" "\<lfloor>ant_y a1\<rfloor> = 45"
    unfolding a1_def using step_stays_in_cell [of 115 a0 45 w1 0 0] a0 by simp_all
  have p1: "\<bar>ant_x a1 - 231 / 2\<bar> \<le> 1 / 10" "\<bar>ant_y a1 - 91 / 2\<bar> \<le> 1 / 10"
    unfolding a1_def using step_moves_little [of w1 a0 0 0] a0 by simp_all
  have pick: "fst (pickUpFoodAt w1 115 45)"
    unfolding pickUpFoodAt_frame f1 by (simp add: distanceCells_le_iff FOOD_RADIUS_CELLS_def)
  have h1: "hasFood a1"
    using step_hasFood [of w1 a0 1 0 0] a0(3) pick
    unfolding a1_def [symmetric] c1 w1 by (simp add: clamp_def)
  have w2: "gridWidth w2 = 233" "gridHeight w2 = 93"
    "toFood w2 = replicate 21669 0" "length (ants w2) = 200" "ants w2 ! 0 = a1"
    unfolding w2_def step_ant_frame a0_def [symmetric] a1_def [symmetric]
    using step_toFood_searching [OF a0(3), of w1 1 0 0] w1 by simp_all
  \<comment> \<open>the second step: the ant, still in the cell, deposits there\<close>
  have b1: "of_int 115 + 1 / 10 \<le> ant_x a1" "ant_x a1 < of_int 115 + 9 / 10"
    "of_int 45 + 1 / 10 \<le> ant_y a1" "ant_y a1 < of_int 45 + 9 / 10"
    using p1 by (simp_all, linarith+)
  have c2: "\<lfloor>ant_x a2\<rfloor> = 115" "\<lfloor>ant_y a2\<rfloor> = 45"
    unfolding a2_def by (rule step_stays_in_cell [OF b1])+
  have i: "nat (indexOf 233 115 45) < 21669" unfolding indexOf_def by simp
  have "toFood (fst (step w2 a1 1 0 0))
          = (replicate 21669 0)[nat (indexOf 233 115 45)
               := fround (min PHEROMONE_MAX (replicate 21669 0 ! nat (indexOf 233 115 45)
                                              + PHEROMONE_DEPOSIT_FOOD))]"
    using step_toFood_returning [OF h1, of w2 1 0 0]
    unfolding a2_def [symmetric] c2 w2 by (simp add: clamp_def)
  then have t3: "toFood w3 = (replicate 21669 0)[nat (indexOf 233 115 45) := fround (45 / 100)]"
    unfolding w3_def step_ant_frame w2 using i
    by (simp add: PHEROMONE_MAX_def PHEROMONE_DEPOSIT_FOOD_def)
  have "toFood w3 ! nat (indexOf 233 115 45) = fround (45 / 100)"
    unfolding t3 using i by (simp only: nth_list_update_eq length_replicate)
  then have v: "toFood w3 ! nat (indexOf 233 115 45) = 7549747 / 16777216"
    unfolding fround_deposit .
  have l: "nat (indexOf 233 115 45) < length (toFood w3)"
    unfolding t3 using i by simp
  \<comment> \<open>the three actions from the reset world\<close>
  have "reachable w0"
    unfolding w0_def by (rule reachable.start) (simp add: is_draw_def)
  then have "reachable (apply_action w0 (AddFood 116 46 3))" by (rule reachable.act) simp
  then have r1: "reachable w1" unfolding w1_def by simp
  have "action_ok w1 (Step 0 1 0 0)" using w1(5) by (simp add: is_draw_def)
  with r1 have "reachable (apply_action w1 (Step 0 1 0 0))" by (rule reachable.act)
  then have r2: "reachable w2" unfolding w2_def by simp
  have "action_ok w2 (Step 0 1 0 0)" using w2(4) by (simp add: is_draw_def)
  with r2 have "reachable (apply_action w2 (Step 0 1 0 0))" by (rule reachable.act)
  then have r3: "reachable w3" unfolding w3_def by simp
  have "0 \<le> toFood w3 ! nat (indexOf 233 115 45) \<and> toFood w3 ! nat (indexOf 233 115 45) \<le> PHEROMONE_MAX"
    using r3 l by (rule field_bounds)
  then show ?thesis
    unfolding Let_def using v
    unfolding w3_def w2_def w1_def w0_def by simp
qed

subsection \<open>Merging food\<close>

text \<open>
  Claim C5. On an empty food store, \<^verbatim>\<open>addFood(cellA, 3)\<close> then \<^verbatim>\<open>addFood(cellB, 2)\<close> with
  the two cells at distance at most \<^verbatim>\<open>FOOD_RADIUS_CELLS + 1\<close>, the merge test of the source,
  leaves exactly one pile, at \<open>cellA\<close>, with amount 5; at a greater distance the two piles
  stay apart.
\<close>

theorem addFood_merges_nearby:
  assumes "foodPiles w = []"
  shows "foodPiles (addFood (addFood w ax ay 3) bx by 2) =
           (if distanceCells (of_int ax) (of_int ay) (of_int bx) (of_int by)
                 \<le> of_int (FOOD_RADIUS_CELLS + 1)
            then [\<lparr>f_x = ax, f_y = ay, amount = 5\<rparr>]
            else [\<lparr>f_x = ax, f_y = ay, amount = 3\<rparr>, \<lparr>f_x = bx, f_y = by, amount = 2\<rparr>])"
proof -
  have first: "foodPiles (addFood w ax ay 3) = [\<lparr>f_x = ax, f_y = ay, amount = 3\<rparr>]"
    using assms by (simp add: addFood_def)
  have near: "near_pile bx by \<lparr>f_x = ax, f_y = ay, amount = 3\<rparr> \<longleftrightarrow>
      distanceCells (of_int ax) (of_int ay) (of_int bx) (of_int by) \<le> of_int (FOOD_RADIUS_CELLS + 1)"
    by (simp add: near_pile_def)
  show ?thesis
  proof (cases "near_pile bx by \<lparr>f_x = ax, f_y = ay, amount = 3\<rparr>")
    case True
    then show ?thesis using first near by (simp add: addFood_def)
  next
    case False
    then show ?thesis using first near by (simp add: addFood_def)
  qed
qed

theorem addFood_merges_nearby_witness:
  "foodPiles (addFood (addFood (new_World 233 93) 10 10 3) 12 12 2)
     = [\<lparr>f_x = 10, f_y = 10, amount = 5\<rparr>]
   \<and> foodPiles (addFood (addFood (new_World 233 93) 10 10 3) 14 10 2)
     = [\<lparr>f_x = 10, f_y = 10, amount = 3\<rparr>, \<lparr>f_x = 14, f_y = 10, amount = 2\<rparr>]"
proof -
  have e: "foodPiles (new_World 233 93) = []"
    by (simp add: new_World_def)
  have d: "distanceCells (of_int 10) (of_int 10) (of_int 12) (of_int 12) \<le> of_int (FOOD_RADIUS_CELLS + 1)"
    "\<not> distanceCells (of_int 10) (of_int 10) (of_int 14) (of_int 10) \<le> of_int (FOOD_RADIUS_CELLS + 1)"
    by (simp_all add: distanceCells_le_iff FOOD_RADIUS_CELLS_def)
  show ?thesis
    using addFood_merges_nearby [OF e, of 10 10 12 12] addFood_merges_nearby [OF e, of 10 10 14 10] d
    by simp
qed

end
